theory Spec2Isabelle
  imports Main "HOL-Library.Word"
begin

unbundle bit_operations_syntax

section \<open>JavaScript numbers and strings\<close>

text \<open>
  The numbers the codec handles are integers well inside the range where a JavaScript
  double is exact, so a number is an \<^typ>\<open>int\<close>. The bitwise operators first convert
  their operands to 32 bits (\<open>ToInt32\<close>, \<open>ToUint32\<close>), and a shift uses the low five
  bits of its count; both are written out here. \<open>charCodeAt\<close> returns \<open>NaN\<close> for an
  index outside the string, so the numbers read from a string are of type \<open>num\<close>; a
  bitwise operator reads \<open>NaN\<close> as 0.
\<close>

datatype num = NaN | Num int

definition toInt32 :: "int \<Rightarrow> int" where
  "toInt32 x = signed_take_bit 31 x"

definition toUint32 :: "int \<Rightarrow> int" where
  "toUint32 x = take_bit 32 x"

text \<open>\<open>a << n\<close>, \<open>a >> n\<close>, \<open>a >>> n\<close>, \<open>a & b\<close>, \<open>a ^ b\<close>, \<open>a | b\<close>.\<close>

definition js_shl :: "int \<Rightarrow> int \<Rightarrow> int" where
  "js_shl a n = toInt32 (push_bit (nat (take_bit 5 n)) (toInt32 a))"

definition js_sar :: "int \<Rightarrow> int \<Rightarrow> int" where
  "js_sar a n = drop_bit (nat (take_bit 5 n)) (toInt32 a)"

definition js_shr :: "int \<Rightarrow> int \<Rightarrow> int" where
  "js_shr a n = drop_bit (nat (take_bit 5 n)) (toUint32 a)"

definition js_and :: "int \<Rightarrow> int \<Rightarrow> int" where
  "js_and a b = toInt32 a AND toInt32 b"

definition js_xor :: "int \<Rightarrow> int \<Rightarrow> int" where
  "js_xor a b = toInt32 a XOR toInt32 b"

definition js_or :: "int \<Rightarrow> int \<Rightarrow> int" where
  "js_or a b = toInt32 a OR toInt32 b"

text \<open>The operand of a bitwise operator: \<open>NaN\<close> counts as 0.\<close>

definition nan0 :: "num \<Rightarrow> int" where
  "nan0 x = (case x of NaN \<Rightarrow> 0 | Num v \<Rightarrow> v)"

text \<open>
  A string is a sequence of 16-bit code units. A "binary string" holds one byte per
  code unit, but nothing in the string type enforces it.
\<close>

type_synonym jsstring = "16 word list"

definition fromCharCode :: "int \<Rightarrow> 16 word" where
  "fromCharCode x = word_of_int x"

definition charCodeAt :: "jsstring \<Rightarrow> int \<Rightarrow> num" where
  "charCodeAt s i = (if 0 \<le> i \<and> i < int (length s) then Num (uint (s ! nat i)) else NaN)"

text \<open>\<open>s.slice(start, end)\<close>: a negative index counts from the end, and both are clamped.\<close>

definition slice_index :: "jsstring \<Rightarrow> int \<Rightarrow> nat" where
  "slice_index s i =
     (if i < 0 then nat (max (int (length s) + i) 0) else nat (min i (int (length s))))"

definition slice :: "jsstring \<Rightarrow> int \<Rightarrow> int \<Rightarrow> jsstring" where
  "slice s start end = take (slice_index s end - slice_index s start) (drop (slice_index s start) s)"

definition slice_from :: "jsstring \<Rightarrow> int \<Rightarrow> jsstring" where
  "slice_from s start = drop (slice_index s start) s"

section \<open>Errors\<close>

text \<open>Every \<open>throw\<close> of \<open>util.ts\<close> and \<open>asn1.ts\<close>, with the fields the error carries.\<close>

datatype error =
    BitsParamError int
  | TooFewBytesDerError int int int
  | NegativeLengthError int
  | UnparsedDerBytesRemainError int int
  | IndefinitePrimitiveError
  | IntegerTooLargeError int
  | CaptureBitStringValueError
  | TypeError

section \<open>ByteStringBuffer (util.ts)\<close>

text \<open>
  The buffer is its string and its read pointer. The third field of the class,
  \<open>_constructedStringLength\<close>, only counts appended characters for a V8 optimisation
  and is never read by any operation modelled here, so it is left out. A method that
  mutates the buffer returns the new buffer; a getter returns its value and the buffer.
\<close>

record ByteStringBuffer =
  data :: jsstring
  read :: int

definition createBuffer :: "jsstring \<Rightarrow> ByteStringBuffer" where
  "createBuffer b = \<lparr>data = b, read = 0\<rparr>"

definition buf_length :: "ByteStringBuffer \<Rightarrow> int" where
  "buf_length b = int (length (data b)) - read b"

definition putBytes :: "ByteStringBuffer \<Rightarrow> jsstring \<Rightarrow> ByteStringBuffer" where
  "putBytes b bytes = b\<lparr>data := data b @ bytes\<rparr>"

definition putByte :: "ByteStringBuffer \<Rightarrow> int \<Rightarrow> ByteStringBuffer" where
  "putByte b x = putBytes b [fromCharCode x]"

definition putInt16 :: "ByteStringBuffer \<Rightarrow> int \<Rightarrow> ByteStringBuffer" where
  "putInt16 b i = putBytes b
     [fromCharCode (js_and (js_sar i 8) 0xFF),
      fromCharCode (js_and i 0xFF)]"

definition putInt32 :: "ByteStringBuffer \<Rightarrow> int \<Rightarrow> ByteStringBuffer" where
  "putInt32 b i = putBytes b
     [fromCharCode (js_and (js_sar i 24) 0xFF),
      fromCharCode (js_and (js_sar i 16) 0xFF),
      fromCharCode (js_and (js_sar i 8) 0xFF),
      fromCharCode (js_and i 0xFF)]"

definition checkBitsParam :: "int \<Rightarrow> error + unit" where
  "checkBitsParam n =
     (if \<not> (n = 8 \<or> n = 16 \<or> n = 24 \<or> n = 32) then Inl (BitsParamError n) else Inr ())"

text \<open>The \<open>do ... while (n > 0)\<close> loop of \<open>putInt\<close>; \<open>bytes\<close> is the string built so far.\<close>

function putInt_loop :: "int \<Rightarrow> int \<Rightarrow> jsstring \<Rightarrow> jsstring" where
  "putInt_loop i n bytes =
     (let n' = n - 8;
          bytes' = bytes @ [fromCharCode (js_and (js_sar i n') 0xFF)]
      in if n' > 0 then putInt_loop i n' bytes' else bytes')"
  by pat_completeness auto
termination
  by (relation "measure (\<lambda>(i, n, bytes). nat n)") auto

declare putInt_loop.simps [simp del]

definition putInt :: "ByteStringBuffer \<Rightarrow> int \<Rightarrow> int \<Rightarrow> error + ByteStringBuffer" where
  "putInt b i n =
     (case checkBitsParam n of
        Inl e \<Rightarrow> Inl e
      | Inr _ \<Rightarrow> Inr (putBytes b (putInt_loop i n [])))"

definition putSignedInt :: "ByteStringBuffer \<Rightarrow> int \<Rightarrow> int \<Rightarrow> error + ByteStringBuffer" where
  "putSignedInt b i n = putInt b (if i < 0 then i + js_shl 2 (n - 1) else i) n"

definition getByte :: "ByteStringBuffer \<Rightarrow> num \<times> ByteStringBuffer" where
  "getByte b = (charCodeAt (data b) (read b), b\<lparr>read := read b + 1\<rparr>)"

definition getInt16 :: "ByteStringBuffer \<Rightarrow> int \<times> ByteStringBuffer" where
  "getInt16 b =
     (js_xor (js_shl (nan0 (charCodeAt (data b) (read b))) 8)
             (nan0 (charCodeAt (data b) (read b + 1))),
      b\<lparr>read := read b + 2\<rparr>)"

definition getInt32 :: "ByteStringBuffer \<Rightarrow> int \<times> ByteStringBuffer" where
  "getInt32 b =
     (js_xor (js_xor (js_xor
        (js_shl (nan0 (charCodeAt (data b) (read b))) 24)
        (js_shl (nan0 (charCodeAt (data b) (read b + 1))) 16))
        (js_shl (nan0 (charCodeAt (data b) (read b + 2))) 8))
        (nan0 (charCodeAt (data b) (read b + 3))),
      b\<lparr>read := read b + 4\<rparr>)"

text \<open>
  The \<open>do ... while (n > 0)\<close> loop of \<open>getInt\<close>. \<open>rval\<close> is a number or \<open>NaN\<close>:
  \<open>rval << 8\<close> reads \<open>NaN\<close> as 0 and the addition of a \<open>NaN\<close> character code gives
  \<open>NaN\<close>.
\<close>

function getInt_loop :: "ByteStringBuffer \<Rightarrow> int \<Rightarrow> num \<Rightarrow> num \<times> ByteStringBuffer" where
  "getInt_loop b n rval =
     (let rval' = (case charCodeAt (data b) (read b) of
                     NaN \<Rightarrow> NaN
                   | Num c \<Rightarrow> Num (js_shl (nan0 rval) 8 + c));
          b' = b\<lparr>read := read b + 1\<rparr>;
          n' = n - 8
      in if n' > 0 then getInt_loop b' n' rval' else (rval', b'))"
  by pat_completeness auto
termination
  by (relation "measure (\<lambda>(b, n, rval). nat n)") auto

declare getInt_loop.simps [simp del]

definition getInt :: "ByteStringBuffer \<Rightarrow> int \<Rightarrow> error + (num \<times> ByteStringBuffer)" where
  "getInt b n =
     (case checkBitsParam n of
        Inl e \<Rightarrow> Inl e
      | Inr _ \<Rightarrow> Inr (getInt_loop b n (Num 0)))"

text \<open>\<open>x >= max\<close> is false for \<open>NaN\<close>, which is then returned as it is.\<close>

definition getSignedInt :: "ByteStringBuffer \<Rightarrow> int \<Rightarrow> error + (num \<times> ByteStringBuffer)" where
  "getSignedInt b n =
     (case getInt b n of
        Inl e \<Rightarrow> Inl e
      | Inr (x, b') \<Rightarrow>
          (let max = js_shl 2 (n - 2)
           in case x of
                NaN \<Rightarrow> Inr (NaN, b')
              | Num v \<Rightarrow> Inr (Num (if v \<ge> max then v - js_shl max 1 else v), b')))"

definition clear :: "ByteStringBuffer \<Rightarrow> ByteStringBuffer" where
  "clear b = b\<lparr>data := [], read := 0\<rparr>"

text \<open>
  \<open>getBytes(count)\<close>; \<open>None\<close> is the omitted argument. A count of 0 takes the second
  branch, any other number the first.
\<close>

definition getBytes :: "ByteStringBuffer \<Rightarrow> int option \<Rightarrow> jsstring \<times> ByteStringBuffer" where
  "getBytes b count =
     (case count of
        Some c \<Rightarrow>
          (if c \<noteq> 0 then
             (let c' = min (buf_length b) c
              in (slice (data b) (read b) (read b + c'), b\<lparr>read := read b + c'\<rparr>))
           else ([], b))
      | None \<Rightarrow> ((if read b = 0 then data b else slice_from (data b) (read b)), clear b))"

text \<open>\<open>bytes(count)\<close>: the same bytes, the read pointer left where it is.\<close>

definition bytes :: "ByteStringBuffer \<Rightarrow> int option \<Rightarrow> jsstring" where
  "bytes b count =
     (case count of
        None \<Rightarrow> slice_from (data b) (read b)
      | Some c \<Rightarrow> slice (data b) (read b) (read b + c))"

text \<open>\<open>putBuffer\<close> empties the buffer it takes from; the emptied buffer is dropped here.\<close>

definition putBuffer :: "ByteStringBuffer \<Rightarrow> ByteStringBuffer \<Rightarrow> ByteStringBuffer" where
  "putBuffer b buffer = putBytes b (fst (getBytes buffer None))"

section \<open>integerToDer (asn1.ts)\<close>

definition integerToDer :: "int \<Rightarrow> error + ByteStringBuffer" where
  "integerToDer x =
     (let rval = createBuffer []
      in if x \<ge> -0x80 \<and> x < 0x80 then putSignedInt rval x 8
         else if x \<ge> -0x8000 \<and> x < 0x8000 then putSignedInt rval x 16
         else if x \<ge> -0x800000 \<and> x < 0x800000 then putSignedInt rval x 24
         else if x \<ge> -0x80000000 \<and> x < 0x80000000 then putSignedInt rval x 32
         else Inl (IntegerTooLargeError x))"

section \<open>ASN.1 objects (asn1.ts)\<close>

text \<open>
  An optional property of a JavaScript object is absent, present with the value
  \<open>undefined\<close>, or present with a value. \<open>'x' in obj\<close> tells the first from the other
  two; reading \<open>obj.x\<close> gives \<open>undefined\<close> for the first two.
\<close>

datatype 'a js_prop = Absent | Undefined | Present 'a

definition prop_value :: "'a js_prop \<Rightarrow> 'a option" where
  "prop_value p = (case p of Absent \<Rightarrow> None | Undefined \<Rightarrow> None | Present x \<Rightarrow> Some x)"

text \<open>
  The interface \<open>Asn1\<close>. \<open>Class\<close> and \<open>Type\<close> are numeric enums, so \<open>tagClass\<close> and
  \<open>type\<close> are numbers; \<open>value\<close> is a string or an array of objects (the selector is
  written \<open>value'\<close>, since \<open>value\<close> is a command of Isabelle).
\<close>

datatype asn1 =
  Asn1 (tagClass: int) (type: int) (constructed: bool) (composed: bool)
       (value': asn1_value) (bitStringContents: "jsstring js_prop") (original: "asn1 option")
and asn1_value = Str jsstring | Arr "asn1 list"

definition isArray :: "asn1_value \<Rightarrow> bool" where
  "isArray v = (case v of Arr xs \<Rightarrow> True | Str s \<Rightarrow> False)"

definition value_length :: "asn1_value \<Rightarrow> nat" where
  "value_length v = (case v of Arr xs \<Rightarrow> length xs | Str s \<Rightarrow> length s)"

text \<open>The members of \<open>Class\<close> and \<open>Type\<close> that the codec itself mentions.\<close>

definition UNIVERSAL :: int where "UNIVERSAL = 0x00"
definition APPLICATION :: int where "APPLICATION = 0x40"
definition CONTEXT_SPECIFIC :: int where "CONTEXT_SPECIFIC = 0x80"
definition PRIVATE :: int where "PRIVATE = 0xC0"

definition INTEGER :: int where "INTEGER = 2"
definition BITSTRING :: int where "BITSTRING = 3"
definition BMPSTRING :: int where "BMPSTRING = 30"

text \<open>
  \<open>copy\<close> takes an object, a string or an array; the three cases are three functions
  here. \<open>options\<close> is \<open>None\<close> when the argument is omitted and otherwise holds
  \<open>excludeBitStringContents\<close>. The copy never has an \<open>original\<close>; with options that do
  not exclude it, it has the key \<open>bitStringContents\<close> even when the source object has
  none.
\<close>

fun copy :: "asn1 \<Rightarrow> bool option \<Rightarrow> asn1"
  and copy_value :: "asn1_value \<Rightarrow> bool option \<Rightarrow> asn1_value"
  and copy_array :: "asn1 list \<Rightarrow> bool option \<Rightarrow> asn1 list" where
  "copy (Asn1 tc ty cons cmp v bsc orig) options =
     Asn1 tc ty cons cmp (copy_value v options)
       (case options of
          None \<Rightarrow> Absent
        | Some excludeBitStringContents \<Rightarrow>
            if \<not> excludeBitStringContents
            then (case bsc of Absent \<Rightarrow> Undefined | Undefined \<Rightarrow> Undefined | Present s \<Rightarrow> Present s)
            else Absent)
       None"
| "copy_value (Str s) options = Str s"
| "copy_value (Arr xs) options = Arr (copy_array xs options)"
| "copy_array [] options = []"
| "copy_array (x # xs) options = copy x options # copy_array xs options"

text \<open>
  \<open>create\<close>. The last argument is the property \<open>bitStringContents\<close> of \<open>options\<close>
  (\<open>Absent\<close> also when \<open>options\<close> itself is omitted). An array in this model holds no
  \<open>undefined\<close> element, so the loop that removes them returns the array as it is.
\<close>

definition create :: "int \<Rightarrow> int \<Rightarrow> bool \<Rightarrow> asn1_value \<Rightarrow> jsstring js_prop \<Rightarrow> asn1" where
  "create tc ty cons v options =
     (let obj = Asn1 tc ty cons (cons \<or> isArray v) v Absent None
      in case options of
           Absent \<Rightarrow> obj
         | _ \<Rightarrow>
            (let obj' = Asn1 tc ty cons (cons \<or> isArray v) v options None
             in Asn1 tc ty cons (cons \<or> isArray v) v options (Some (copy obj' None))))"

text \<open>
  \<open>equals\<close>, again one function for each kind of argument. \<open>options\<close> is \<open>Some True\<close>
  when \<open>includeBitStringContents\<close> is given and true; the recursive calls pass no
  options. The loop over two arrays runs over the indices of the first one.
\<close>

fun equals :: "asn1 \<Rightarrow> asn1 \<Rightarrow> bool option \<Rightarrow> bool"
  and equals_value :: "asn1_value \<Rightarrow> asn1_value \<Rightarrow> bool"
  and equals_array :: "asn1 list \<Rightarrow> asn1 list \<Rightarrow> bool" where
  "equals (Asn1 tc ty cons cmp v bsc orig) obj2 options =
     (let equal = (tc = tagClass obj2 \<and> ty = type obj2 \<and> cons = constructed obj2 \<and>
                   cmp = composed obj2 \<and> equals_value v (value' obj2))
      in if options = Some True
         then equal \<and> prop_value bsc = prop_value (bitStringContents obj2)
         else equal)"
| "equals_value (Arr xs) (Arr ys) = (if length xs \<noteq> length ys then False else equals_array xs ys)"
| "equals_value (Arr xs) (Str s) = False"
| "equals_value (Str s) (Arr ys) = False"
| "equals_value (Str s1) (Str s2) = (s1 = s2)"
| "equals_array [] ys = True"
| "equals_array (x # xs) [] = False"
| "equals_array (x # xs) (y # ys) = (if \<not> equals x y None then False else equals_array xs ys)"

section \<open>toDer (asn1.ts)\<close>

text \<open>
  The \<open>do ... while (len > 0)\<close> loop that writes a length of more than 127 in base 256,
  least significant byte first.
\<close>

function lenBytes_loop :: "int \<Rightarrow> jsstring \<Rightarrow> jsstring" where
  "lenBytes_loop len lenBytes =
     (let lenBytes' = lenBytes @ [fromCharCode (js_and len 0xFF)];
          len' = js_shr len 8
      in if len' > 0 then lenBytes_loop len' lenBytes' else lenBytes')"
  by pat_completeness auto
termination
proof (relation "measure (\<lambda>(len, lenBytes). if len < 0 then 2 ^ 32 else nat len)")
  show "wf (measure (\<lambda>(len, lenBytes). if len < 0 then 2 ^ 32 else nat len))"
    by simp
next
  fix len :: int and lenBytes lenBytes' :: jsstring and len' :: int
  assume l: "len' = js_shr len 8" and pos: "0 < len'"
  have t: "take_bit 32 len < 2 ^ 32" "0 \<le> take_bit 32 len"
    using take_bit_int_less_exp [of 32 len] by simp_all
  have d: "len' = take_bit 32 len div 256"
    by (simp add: l js_shr_def toUint32_def drop_bit_eq_div)
  have small: "len' < 2 ^ 32"
    using t d by simp
  have "0 \<le> len \<Longrightarrow> len' < len"
  proof -
    assume "0 \<le> len"
    then have "take_bit 32 len \<le> len"
      by (simp add: take_bit_int_less_eq_self_iff)
    with d pos show "len' < len"
      by simp
  qed
  with pos small
  show "((len', lenBytes'), (len, lenBytes))
      \<in> measure (\<lambda>(len, lenBytes). if len < 0 then 2 ^ 32 else nat len)"
    by auto
qed

declare lenBytes_loop.simps [simp del]

text \<open>
  The end of \<open>toDer\<close>: the tag byte, the length in short or long form, and the value
  bytes.
\<close>

definition toDer_finish :: "ByteStringBuffer \<Rightarrow> int \<Rightarrow> ByteStringBuffer \<Rightarrow> ByteStringBuffer" where
  "toDer_finish bytes0 b1 val =
     (let bytes1 = putByte bytes0 b1;
          bytes2 =
            (if buf_length val \<le> 127 then putByte bytes1 (js_and (buf_length val) 0x7F)
             else (let len = buf_length val;
                       lenBytes = lenBytes_loop len [];
                       bytes' = putByte bytes1 (js_or (int (length lenBytes)) 0x80)
                   in fold (\<lambda>c b. putByte b (uint c)) (rev lenBytes) bytes'))
      in putBuffer bytes2 val)"

text \<open>
  What JavaScript makes of an array of objects that is appended to a string: the
  elements, each printed as \<open>[object Object]\<close>, joined by commas.
\<close>

definition object_Object :: jsstring where
  "object_Object =
     [0x5B, 0x6F, 0x62, 0x6A, 0x65, 0x63, 0x74, 0x20, 0x4F, 0x62, 0x6A, 0x65, 0x63, 0x74, 0x5D]"

fun join_objects :: "nat \<Rightarrow> jsstring" where
  "join_objects 0 = []"
| "join_objects (Suc 0) = object_Object"
| "join_objects (Suc (Suc n)) = object_Object @ [0x2C] @ join_objects (Suc n)"

definition array_toString :: "asn1 list \<Rightarrow> jsstring" where
  "array_toString xs = join_objects (length xs)"

text \<open>
  The branch of \<open>toDer\<close> for an object that is not composed: the value bytes. The
  source casts \<open>obj.value\<close> to a string; when it is an array after all, \<open>charCodeAt\<close> is
  not a function (a \<open>TypeError\<close>) and \<open>putBytes\<close> appends the array's string form.
\<close>

definition toDer_primitive :: "int \<Rightarrow> asn1_value \<Rightarrow> ByteStringBuffer \<Rightarrow> error + ByteStringBuffer" where
  "toDer_primitive ty v val =
     (if ty = BMPSTRING then
        (case v of
           Str s \<Rightarrow> Inr (fold (\<lambda>c b. putInt16 b (uint c)) s val)
         | Arr xs \<Rightarrow> if xs = [] then Inr val else Inl TypeError)
      else
        (case v of
           Str s \<Rightarrow>
             if ty = INTEGER \<and> length s > 1 \<and>
                ((charCodeAt s 0 = Num 0 \<and> js_and (nan0 (charCodeAt s 1)) 0x80 = 0) \<or>
                 (charCodeAt s 0 = Num 0xFF \<and> js_and (nan0 (charCodeAt s 1)) 0x80 = 0x80))
             then Inr (putBytes val (slice_from s 1))
             else Inr (putBytes val s)
         | Arr xs \<Rightarrow>
             if ty = INTEGER \<and> length xs > 1 then Inl TypeError
             else Inr (putBytes val (array_toString xs))))"

text \<open>
  \<open>toDer\<close>. The loop over the children is \<open>toDer_children\<close>, which appends each child's
  bytes to the value buffer. A composed object whose value is a non-empty string makes
  the loop call \<open>toDer\<close> on a one-character string, where \<open>'bitStringContents' in obj\<close>
  is a \<open>TypeError\<close>. \<open>putBytes(obj.bitStringContents)\<close> is a \<open>TypeError\<close> too when the
  property is present and \<open>undefined\<close>.
\<close>

fun toDer :: "asn1 \<Rightarrow> error + ByteStringBuffer"
  and toDer_children :: "asn1 list \<Rightarrow> ByteStringBuffer \<Rightarrow> error + ByteStringBuffer" where
  "toDer (Asn1 tc ty cons cmp v bsc orig) =
     (let obj = Asn1 tc ty cons cmp v bsc orig;
          bytes0 = createBuffer [];
          b1 = js_or tc ty;
          val = createBuffer [];
          useBitStringContents =
            (case bsc of
               Absent \<Rightarrow> False
             | _ \<Rightarrow> (case orig of None \<Rightarrow> True | Some orig' \<Rightarrow> equals obj orig' None))
      in if useBitStringContents then
           (case bsc of
              Present s \<Rightarrow> Inr (toDer_finish bytes0 b1 (putBytes val s))
            | _ \<Rightarrow> Inl TypeError)
         else if cmp then
           (let b1' = (if cons then js_or b1 0x20 else b1);
                val' = (if cons then val else putByte val 0x00)
            in case v of
                 Arr xs \<Rightarrow>
                   (case toDer_children xs val' of
                      Inl e \<Rightarrow> Inl e
                    | Inr val'' \<Rightarrow> Inr (toDer_finish bytes0 b1' val''))
               | Str s \<Rightarrow> if s = [] then Inr (toDer_finish bytes0 b1' val') else Inl TypeError)
         else
           (case toDer_primitive ty v val of
              Inl e \<Rightarrow> Inl e
            | Inr val' \<Rightarrow> Inr (toDer_finish bytes0 b1 val')))"
| "toDer_children [] val = Inr val"
| "toDer_children (x # xs) val =
     (case toDer x of
        Inl e \<Rightarrow> Inl e
      | Inr b \<Rightarrow> toDer_children xs (putBuffer val b))"

section \<open>fromDer (asn1.ts)\<close>

text \<open>
  The options of \<open>fromDer\<close> after its defaults are filled in, and the argument as the
  caller gives it: omitted, a boolean (the \<open>strict\<close> flag), or an object in which each
  of the three keys may be missing.
\<close>

record der_options =
  strict :: bool
  parseAllBytes :: bool
  decodeBitStrings :: bool

datatype fromDer_options =
    NoOptions
  | StrictFlag bool
  | Options "bool option" "bool option" "bool option"

definition fill_options :: "fromDer_options \<Rightarrow> der_options" where
  "fill_options options =
     (case options of
        NoOptions \<Rightarrow> \<lparr>strict = True, parseAllBytes = True, decodeBitStrings = True\<rparr>
      | StrictFlag s \<Rightarrow> \<lparr>strict = s, parseAllBytes = True, decodeBitStrings = True\<rparr>
      | Options s p d \<Rightarrow>
          \<lparr>strict = (case s of None \<Rightarrow> True | Some x \<Rightarrow> x),
           parseAllBytes = (case p of None \<Rightarrow> True | Some x \<Rightarrow> x),
           decodeBitStrings = (case d of None \<Rightarrow> True | Some x \<Rightarrow> x)\<rparr>)"

definition checkBufferLength :: "ByteStringBuffer \<Rightarrow> int \<Rightarrow> int \<Rightarrow> error + unit" where
  "checkBufferLength b remaining n =
     (if n > remaining then Inl (TooFewBytesDerError (buf_length b) remaining n) else Inr ())"

text \<open>
  The parser returns \<open>Some (Inr x)\<close> when the source returns \<open>x\<close> and \<open>Some (Inl e)\<close>
  when it throws \<open>e\<close>. \<open>None\<close> marks the two places where the model stops: a length byte
  read past the end of the string, which would make the length \<open>NaN\<close>, and the end of
  the fuel that bounds the recursion. \<open>fromDer\<close> reaches neither (see
  \<open>fromDer_returns\<close> below).

  \<open>_getValueLength\<close>: the length is \<open>None\<close> for the indefinite form (\<open>undefined\<close> in
  the source).
\<close>

definition getValueLength ::
  "ByteStringBuffer \<Rightarrow> int \<Rightarrow> (error + int option \<times> ByteStringBuffer) option" where
  "getValueLength b remaining =
     (let (b2, b') = getByte b;
          remaining' = remaining - 1
      in case b2 of
           NaN \<Rightarrow> None
         | Num c \<Rightarrow>
             if c = 0x80 then Some (Inr (None, b'))
             else if js_and c 0x80 = 0 then
               (if c < 0 then Some (Inl (NegativeLengthError c)) else Some (Inr (Some c, b')))
             else
               (let longFormBytes = js_and c 0x7F
                in case checkBufferLength b' remaining' longFormBytes of
                     Inl e \<Rightarrow> Some (Inl e)
                   | Inr u \<Rightarrow>
                       (case getInt b' (js_shl longFormBytes 3) of
                          Inl e \<Rightarrow> Some (Inl e)
                        | Inr (NaN, b'') \<Rightarrow> None
                        | Inr (Num len, b'') \<Rightarrow>
                            if len < 0 then Some (Inl (NegativeLengthError len))
                            else Some (Inr (Some len, b'')))))"

text \<open>
  The start of \<open>_fromDer\<close>, up to the check of the length against the bytes that
  remain: the tag byte \<open>b1\<close> (which the source uses under \<open>&\<close> only, so that \<open>NaN\<close> is
  0), the length, the buffer and the remaining count after tag and length.
\<close>

definition read_header ::
  "ByteStringBuffer \<Rightarrow> int \<Rightarrow> der_options \<Rightarrow>
   (error + int \<times> int option \<times> ByteStringBuffer \<times> int) option" where
  "read_header b remaining options =
     (case checkBufferLength b remaining 2 of
        Inl e \<Rightarrow> Some (Inl e)
      | Inr u \<Rightarrow>
          (let (b1, b') = getByte b;
               remaining1 = remaining - 1;
               start = buf_length b'
           in case getValueLength b' remaining1 of
                None \<Rightarrow> None
              | Some (Inl e) \<Rightarrow> Some (Inl e)
              | Some (Inr (len, b'')) \<Rightarrow>
                  (let remaining2 = remaining1 - (start - buf_length b'')
                   in case len of
                        None \<Rightarrow> Some (Inr (nan0 b1, None, b'', remaining2))
                      | Some l \<Rightarrow>
                          if l > remaining2 then
                            (if strict options
                             then Some (Inl (TooFewBytesDerError (buf_length b'') remaining2 l))
                             else Some (Inr (nan0 b1, Some remaining2, b'', remaining2)))
                          else Some (Inr (nan0 b1, Some l, b'', remaining2)))))"

text \<open>The loop that reads a BMPSTRING, two bytes for each character.\<close>

function bmp_loop ::
  "ByteStringBuffer \<Rightarrow> int \<Rightarrow> int \<Rightarrow> jsstring \<Rightarrow> error + jsstring \<times> ByteStringBuffer" where
  "bmp_loop b remaining len val =
     (if len > 0 then
        (case checkBufferLength b remaining 2 of
           Inl e \<Rightarrow> Inl e
         | Inr u \<Rightarrow>
             (let (c, b') = getInt16 b
              in bmp_loop b' (remaining - 2) (len - 2) (val @ [fromCharCode c])))
      else Inr (val, b))"
  by pat_completeness auto
termination
  by (relation "measure (\<lambda>(b, remaining, len, val). nat len)") auto

declare bmp_loop.simps [simp del]

text \<open>
  The last part of \<open>_fromDer\<close>, for a value that is neither constructed nor decoded
  from a BIT STRING: the raw bytes, or the characters of a BMPSTRING.
\<close>

definition read_raw_value ::
  "int \<Rightarrow> int option \<Rightarrow> ByteStringBuffer \<Rightarrow> int \<Rightarrow> der_options \<Rightarrow>
   error + jsstring \<times> ByteStringBuffer" where
  "read_raw_value ty len b remaining options =
     (case (case len of
              Some l \<Rightarrow> Inr l
            | None \<Rightarrow> if strict options then Inl IndefinitePrimitiveError else Inr remaining) of
        Inl e \<Rightarrow> Inl e
      | Inr l \<Rightarrow>
          if ty = BMPSTRING then bmp_loop b remaining l []
          else Inr (getBytes b (Some l)))"

text \<open>
  The speculative decoding of a BIT STRING (the source's lines from "save read
  position" to "restore read position"), given the parser \<open>parse\<close> for the nested call
  with its options fixed. \<open>decode_attempt\<close> is the body of the guarding \<open>if\<close>, for a
  declared length \<open>len\<close>; \<open>decode_bit_string\<close> is the \<open>if\<close> itself. Both return the
  decoded value if there is one, the buffer and the remaining count. An error of the
  nested call is caught; since parsing never changes the string of the buffer,
  restoring \<open>read\<close> on the buffer as it was before the nested call is restoring it on
  the buffer that the nested call left behind.
\<close>

definition decode_attempt ::
  "(ByteStringBuffer \<Rightarrow> int \<Rightarrow> (error + asn1 \<times> ByteStringBuffer) option) \<Rightarrow>
   ByteStringBuffer \<Rightarrow> int \<Rightarrow> int \<Rightarrow>
   (error + asn1 list option \<times> ByteStringBuffer \<times> int) option" where
  "decode_attempt parse b remaining len =
     (let savedRead = read b;
          savedRemaining = remaining
      in case checkBufferLength b remaining 1 of
           Inl e \<Rightarrow> Some (Inl e)
         | Inr u \<Rightarrow>
             (let (unused, b1) = getByte b;
                  remaining1 = remaining - 1
              in if unused = Num 0 then
                   (let start = buf_length b1
                    in case parse b1 remaining1 of
                         None \<Rightarrow> None
                       | Some (Inl e) \<Rightarrow> Some (Inr (None, b1\<lparr>read := savedRead\<rparr>, savedRemaining))
                       | Some (Inr (nested, b2)) \<Rightarrow>
                           (let used = start - buf_length b2;
                                remaining2 = remaining1 - used;
                                used' = used + 1;
                                tc = tagClass nested
                            in if used' = len \<and> (tc = UNIVERSAL \<or> tc = CONTEXT_SPECIFIC)
                               then Some (Inr (Some [nested], b2, remaining2))
                               else Some (Inr (None, b2\<lparr>read := savedRead\<rparr>, savedRemaining))))
                 else Some (Inr (None, b1\<lparr>read := savedRead\<rparr>, savedRemaining))))"

definition decode_bit_string ::
  "(ByteStringBuffer \<Rightarrow> int \<Rightarrow> (error + asn1 \<times> ByteStringBuffer) option) \<Rightarrow>
   der_options \<Rightarrow> int \<Rightarrow> int \<Rightarrow> int option \<Rightarrow> ByteStringBuffer \<Rightarrow> int \<Rightarrow>
   (error + asn1 list option \<times> ByteStringBuffer \<times> int) option" where
  "decode_bit_string parse options tc ty len b remaining =
     (if decodeBitStrings options \<and> tc = UNIVERSAL \<and> ty = BITSTRING \<and>
         (case len of None \<Rightarrow> False | Some l \<Rightarrow> l > 1)
      then decode_attempt parse b remaining (the len)
      else Some (Inr (None, b, remaining)))"

definition subOptions :: der_options where
  "subOptions = \<lparr>strict = True, parseAllBytes = False, decodeBitStrings = True\<rparr>"

text \<open>
  \<open>_fromDer\<close> and its two loops over the children of a constructed value, for a
  definite and for an indefinite length. The first argument is the fuel. The \<open>depth\<close>
  argument of the source is only passed on and never read, and \<open>remaining\<close> is not
  read again after the loop over a definite length; both are left out. \<open>subOptions\<close>
  has no key \<open>parseAllBytes\<close> in the source, where only \<open>fromDer\<close> reads that key.
\<close>

fun fromDer_rec ::
    "nat \<Rightarrow> ByteStringBuffer \<Rightarrow> int \<Rightarrow> der_options \<Rightarrow> (error + asn1 \<times> ByteStringBuffer) option"
  and fromDer_definite ::
    "nat \<Rightarrow> ByteStringBuffer \<Rightarrow> int \<Rightarrow> asn1 list \<Rightarrow> der_options \<Rightarrow>
     (error + asn1 list \<times> ByteStringBuffer) option"
  and fromDer_indefinite ::
    "nat \<Rightarrow> ByteStringBuffer \<Rightarrow> int \<Rightarrow> asn1 list \<Rightarrow> der_options \<Rightarrow>
     (error + asn1 list \<times> ByteStringBuffer) option" where
  "fromDer_rec 0 b remaining options = None"
| "fromDer_rec (Suc fuel) b remaining options =
     (case read_header b remaining options of
        None \<Rightarrow> None
      | Some (Inl e) \<Rightarrow> Some (Inl e)
      | Some (Inr (b1, len, b2, remaining2)) \<Rightarrow>
          (let tc = js_and b1 0xC0;
               ty = js_and b1 0x1F;
               cons = (js_and b1 0x20 = 0x20)
           in if cons then
                (case (case len of
                         None \<Rightarrow> fromDer_indefinite fuel b2 remaining2 [] options
                       | Some l \<Rightarrow> fromDer_definite fuel b2 l [] options) of
                   None \<Rightarrow> None
                 | Some (Inl e) \<Rightarrow> Some (Inl e)
                 | Some (Inr (val, b3)) \<Rightarrow> Some (Inr (create tc ty cons (Arr val) Absent, b3)))
              else
                (let bsc = (if tc = UNIVERSAL \<and> ty = BITSTRING then Present (bytes b2 len)
                            else Absent)
                 in case decode_bit_string (\<lambda>b' r'. fromDer_rec fuel b' r' subOptions)
                           options tc ty len b2 remaining2 of
                      None \<Rightarrow> None
                    | Some (Inl e) \<Rightarrow> Some (Inl e)
                    | Some (Inr (Some val, b3, remaining3)) \<Rightarrow>
                        Some (Inr (create tc ty cons (Arr val) bsc, b3))
                    | Some (Inr (None, b3, remaining3)) \<Rightarrow>
                        (case read_raw_value ty len b3 remaining3 options of
                           Inl e \<Rightarrow> Some (Inl e)
                         | Inr (val, b4) \<Rightarrow> Some (Inr (create tc ty cons (Str val) bsc, b4))))))"
| "fromDer_definite 0 b len val options = None"
| "fromDer_definite (Suc fuel) b len val options =
     (if len > 0 then
        (let start = buf_length b
         in case fromDer_rec fuel b len options of
              None \<Rightarrow> None
            | Some (Inl e) \<Rightarrow> Some (Inl e)
            | Some (Inr (child, b')) \<Rightarrow>
                fromDer_definite fuel b' (len - (start - buf_length b')) (val @ [child]) options)
      else Some (Inr (val, b)))"
| "fromDer_indefinite 0 b remaining val options = None"
| "fromDer_indefinite (Suc fuel) b remaining val options =
     (case checkBufferLength b remaining 2 of
        Inl e \<Rightarrow> Some (Inl e)
      | Inr u \<Rightarrow>
          if bytes b (Some 2) = [0, 0] then Some (Inr (val, snd (getBytes b (Some 2))))
          else
            (let start = buf_length b
             in case fromDer_rec fuel b remaining options of
                  None \<Rightarrow> None
                | Some (Inl e) \<Rightarrow> Some (Inl e)
                | Some (Inr (child, b')) \<Rightarrow>
                    fromDer_indefinite fuel b' (remaining - (start - buf_length b'))
                      (val @ [child]) options))"

text \<open>
  \<open>fromDer\<close>, for a buffer; a string is wrapped in a buffer first. It returns the
  object and the buffer, whose read pointer the source moves in place. The fuel is
  one more than the number of bytes, which is enough for every input.
\<close>

definition fromDer ::
  "ByteStringBuffer \<Rightarrow> fromDer_options \<Rightarrow> (error + asn1 \<times> ByteStringBuffer) option" where
  "fromDer b options =
     (let opts = fill_options options;
          byteCount = buf_length b
      in case fromDer_rec (Suc (nat (buf_length b))) b (buf_length b) opts of
           None \<Rightarrow> None
         | Some (Inl e) \<Rightarrow> Some (Inl e)
         | Some (Inr (val, b')) \<Rightarrow>
             if parseAllBytes opts \<and> buf_length b' \<noteq> 0
             then Some (Inl (UnparsedDerBytesRemainError byteCount (buf_length b')))
             else Some (Inr (val, b')))"

definition fromDer_string ::
  "jsstring \<Rightarrow> fromDer_options \<Rightarrow> (error + asn1 \<times> ByteStringBuffer) option" where
  "fromDer_string s options = fromDer (createBuffer s) options"

section \<open>validate (asn1.ts)\<close>

text \<open>
  A validator is an untyped object in the source. Its fields: the name used in the
  messages; the expected tag class, type and constructed flag, each \<open>None\<close> when
  unspecified; the validators of the sub-values, \<open>None\<close> when \<open>value\<close> is not an array;
  the flag \<open>optional\<close>; and the four capture keys.
\<close>

datatype validator =
  Validator (v_name: string) (v_tagClass: "int option") (v_type: "int option")
    (v_constructed: "bool option") (v_value: "validator list option") (v_optional: bool)
    (v_capture: "string option") (v_captureAsn1: "string option")
    (v_captureBitStringContents: "string option") (v_captureBitStringValue: "string option")

text \<open>A key is used when it is given and not the empty string.\<close>

definition key_given :: "string option \<Rightarrow> bool" where
  "key_given k = (case k of None \<Rightarrow> False | Some s \<Rightarrow> s \<noteq> [])"

text \<open>
  \<open>validate\<close> calls itself on \<open>obj.value[j]\<close>, cast to \<open>Asn1\<close>. When \<open>obj.value\<close> is a
  string this is a one-character string: every property read from it is \<open>undefined\<close>,
  and indexing its \<open>value\<close> or asking \<open>'bitStringContents' in\<close> it is a \<open>TypeError\<close>.
\<close>

datatype subject = Node asn1 | Char "16 word"

definition s_tagClass :: "subject \<Rightarrow> int option" where
  "s_tagClass obj = (case obj of Node n \<Rightarrow> Some (tagClass n) | Char c \<Rightarrow> None)"

definition s_type :: "subject \<Rightarrow> int option" where
  "s_type obj = (case obj of Node n \<Rightarrow> Some (type n) | Char c \<Rightarrow> None)"

definition s_constructed :: "subject \<Rightarrow> bool option" where
  "s_constructed obj = (case obj of Node n \<Rightarrow> Some (constructed n) | Char c \<Rightarrow> None)"

text \<open>\<open>obj.value[j]\<close>: \<open>None\<close> when there is no such element.\<close>

definition subject_child :: "subject \<Rightarrow> nat \<Rightarrow> error + subject option" where
  "subject_child obj j =
     (case obj of
        Char c \<Rightarrow> Inl TypeError
      | Node n \<Rightarrow>
          (case value' n of
             Arr xs \<Rightarrow> Inr (if j < length xs then Some (Node (xs ! j)) else None)
           | Str s \<Rightarrow> Inr (if j < length s then Some (Char (s ! j)) else None)))"

definition subject_value_length :: "subject \<Rightarrow> nat option" where
  "subject_value_length obj = (case obj of Node n \<Rightarrow> Some (value_length (value' n)) | Char c \<Rightarrow> None)"

text \<open>What the capture map holds, and the four messages, with the values they print.\<close>

datatype captured =
    CapturedValue asn1_value
  | CapturedAsn1 asn1
  | CapturedString jsstring
  | CapturedUndefined

datatype diagnostic =
    ValueLengthMismatch string "int option" "int option" nat "nat option"
  | ConstructedMismatch string "bool option" "bool option"
  | TagClassMismatch string "int option" "int option"
  | TypeMismatch string "int option" "int option"

type_synonym capture_map = "string \<rightharpoonup> captured"

definition push :: "diagnostic list option \<Rightarrow> diagnostic \<Rightarrow> diagnostic list option" where
  "push errors d = (case errors of None \<Rightarrow> None | Some ds \<Rightarrow> Some (ds @ [d]))"

text \<open>The captures of a successful match, in the order of the source.\<close>

definition apply_captures :: "subject \<Rightarrow> validator \<Rightarrow> capture_map \<Rightarrow> error + capture_map" where
  "apply_captures obj v capture =
     (let c1 = (if key_given (v_capture v)
                then capture(the (v_capture v) \<mapsto>
                       (case obj of Node n \<Rightarrow> CapturedValue (value' n) | Char c \<Rightarrow> CapturedUndefined))
                else capture);
          c2 = (if key_given (v_captureAsn1 v)
                then c1(the (v_captureAsn1 v) \<mapsto>
                       (case obj of Node n \<Rightarrow> CapturedAsn1 n | Char c \<Rightarrow> CapturedString [c]))
                else c1)
      in case (if key_given (v_captureBitStringContents v) then
                 (case obj of
                    Char c \<Rightarrow> Inl TypeError
                  | Node n \<Rightarrow>
                      (case bitStringContents n of
                         Absent \<Rightarrow> Inr c2
                       | Undefined \<Rightarrow>
                           Inr (c2(the (v_captureBitStringContents v) \<mapsto> CapturedUndefined))
                       | Present s \<Rightarrow>
                           Inr (c2(the (v_captureBitStringContents v) \<mapsto> CapturedString s))))
               else Inr c2) of
           Inl e \<Rightarrow> Inl e
         | Inr c3 \<Rightarrow>
             if key_given (v_captureBitStringValue v) then
               (case obj of
                  Char c \<Rightarrow> Inl TypeError
                | Node n \<Rightarrow>
                    (case bitStringContents n of
                       Absent \<Rightarrow> Inr c3
                     | Undefined \<Rightarrow> Inl TypeError
                     | Present s \<Rightarrow>
                         if length s < 2
                         then Inr (c3(the (v_captureBitStringValue v) \<mapsto> CapturedString []))
                         else if charCodeAt s 0 \<noteq> Num 0 then Inl CaptureBitStringValueError
                         else Inr (c3(the (v_captureBitStringValue v) \<mapsto>
                                     CapturedString (slice_from s 1)))))
             else Inr c3)"

text \<open>
  \<open>validate\<close> returns its boolean together with the capture map and the error list,
  which the source updates in place; each of the two is \<open>None\<close> when the caller passes
  none. \<open>validate_loop\<close> is the \<open>for\<close> loop over the sub-validators that are left, with
  the index \<open>j\<close> into the object's value and the current \<open>rval\<close>; it is given the name,
  tag class, type and number of sub-validators of the enclosing validator for its
  message.
\<close>

fun validate ::
    "subject \<Rightarrow> validator \<Rightarrow> capture_map option \<Rightarrow> diagnostic list option \<Rightarrow>
     error + bool \<times> capture_map option \<times> diagnostic list option"
  and validate_loop ::
    "subject \<Rightarrow> string \<Rightarrow> int option \<Rightarrow> int option \<Rightarrow> nat \<Rightarrow> validator list \<Rightarrow> nat \<Rightarrow> bool \<Rightarrow>
     capture_map option \<Rightarrow> diagnostic list option \<Rightarrow>
     error + bool \<times> capture_map option \<times> diagnostic list option" where
  "validate obj (Validator name tc ty cons vals opt cap capA capB capV) capture errors =
     (if (s_tagClass obj = tc \<or> tc = None) \<and> (s_type obj = ty \<or> ty = None) then
        (if s_constructed obj = cons \<or> cons = None then
           (case (case vals of
                    Some vs \<Rightarrow> validate_loop obj name tc ty (length vs) vs 0 True capture errors
                  | None \<Rightarrow> Inr (True, capture, errors)) of
              Inl e \<Rightarrow> Inl e
            | Inr (rval, capture', errors') \<Rightarrow>
                (case capture' of
                   Some c \<Rightarrow>
                     if rval then
                       (case apply_captures obj
                               (Validator name tc ty cons vals opt cap capA capB capV) c of
                          Inl e \<Rightarrow> Inl e
                        | Inr c' \<Rightarrow> Inr (rval, Some c', errors'))
                     else Inr (rval, capture', errors')
                 | None \<Rightarrow> Inr (rval, capture', errors')))
         else Inr (False, capture, push errors (ConstructedMismatch name cons (s_constructed obj))))
      else
        (let errors1 = (if s_tagClass obj \<noteq> tc
                        then push errors (TagClassMismatch name tc (s_tagClass obj)) else errors);
             errors2 = (if s_type obj \<noteq> ty
                        then push errors1 (TypeMismatch name ty (s_type obj)) else errors1)
         in Inr (False, capture, errors2)))"
| "validate_loop obj name tc ty n [] j rval capture errors = Inr (rval, capture, errors)"
| "validate_loop obj name tc ty n (vi # rest) j rval capture errors =
     (if \<not> rval then Inr (rval, capture, errors)
      else
        (case subject_child obj j of
           Inl e \<Rightarrow> Inl e
         | Inr None \<Rightarrow>
             (let rval1 = v_optional vi;
                  errors1 = (if \<not> rval1
                             then push errors (ValueLengthMismatch name tc ty n (subject_value_length obj))
                             else errors)
              in validate_loop obj name tc ty n rest j rval1 capture errors1)
         | Inr (Some child) \<Rightarrow>
             (case validate child vi capture errors of
                Inl e \<Rightarrow> Inl e
              | Inr (r, capture', errors') \<Rightarrow>
                  (let j' = (if r then j + 1 else j);
                       rval1 = (if r then True else if v_optional vi then True else False);
                       errors1 = (if \<not> rval1
                                  then push errors' (ValueLengthMismatch name tc ty n
                                         (subject_value_length obj))
                                  else errors')
                   in validate_loop obj name tc ty n rest j' rval1 capture' errors1))))"

section \<open>Reference notions for the integer primitives\<close>

text \<open>
  The claims about the buffer's integer primitives speak of unsigned big-endian values
  and of two's complement. These definitions say what the words mean, independently of
  the code: \<open>unsigned_be k v\<close> is the string of the \<open>k\<close> base-256 digits of \<open>v\<close>, most
  significant first; \<open>digits\<close> is the same list as numbers; \<open>be_value\<close> reads a list of
  digits back; \<open>fits w x\<close> says that \<open>x\<close> is representable in \<open>w\<close>-bit two's complement,
  and \<open>twos_complement w x\<close> is that representation. \<open>peek_codes b k\<close> lists the next
  \<open>k\<close> character codes of a buffer from its read pointer on.
\<close>

definition unsigned_be :: "nat \<Rightarrow> int \<Rightarrow> jsstring" where
  "unsigned_be k v = map (\<lambda>j. fromCharCode ((v div 256 ^ (k - 1 - j)) mod 256)) [0..<k]"

definition digits :: "nat \<Rightarrow> int \<Rightarrow> int list" where
  "digits k v = map (\<lambda>j. (v div 256 ^ (k - 1 - j)) mod 256) [0..<k]"

definition be_value :: "int list \<Rightarrow> int" where
  "be_value cs = foldl (\<lambda>a c. a * 256 + c) 0 cs"

definition fits :: "nat \<Rightarrow> int \<Rightarrow> bool" where
  "fits w x = (- (2 ^ (w - 1)) \<le> x \<and> x < 2 ^ (w - 1))"

definition twos_complement :: "nat \<Rightarrow> int \<Rightarrow> jsstring" where
  "twos_complement w x = unsigned_be (w div 8) (x mod 2 ^ w)"

definition peek_codes :: "ByteStringBuffer \<Rightarrow> nat \<Rightarrow> num list" where
  "peek_codes b k = map (\<lambda>j. charCodeAt (data b) (read b + int j)) [0..<k]"

section \<open>Reference notions for the codec\<close>

text \<open>
  The invariant of the interface \<open>Asn1\<close>, for an object, for all the objects below it
  and for its snapshot \<open>original\<close>: \<open>composed\<close> is true exactly when the object is
  constructed or its value is an array.
\<close>

fun composed_ok :: "asn1 \<Rightarrow> bool"
  and composed_ok_value :: "asn1_value \<Rightarrow> bool"
  and composed_ok_array :: "asn1 list \<Rightarrow> bool" where
  "composed_ok (Asn1 tc ty cons cmp v bsc orig) =
     (cmp = (cons \<or> isArray v) \<and> composed_ok_value v \<and>
      (case orig of None \<Rightarrow> True | Some snapshot \<Rightarrow> composed_ok snapshot))"
| "composed_ok_value (Str s) = True"
| "composed_ok_value (Arr xs) = composed_ok_array xs"
| "composed_ok_array [] = True"
| "composed_ok_array (x # xs) = (composed_ok x \<and> composed_ok_array xs)"

text \<open>
  The speculative decoding of a BIT STRING is abandoned, for the buffer \<open>b\<close> and the
  remaining count after the tag and the length \<open>len\<close>, when the counter of unused bits
  is not 0, when the nested strict parse fails, when it does not end exactly \<open>len\<close>
  bytes after \<open>b\<close>, or when the tag class of the nested object is neither UNIVERSAL nor
  CONTEXT_SPECIFIC.
\<close>

definition abandoned :: "nat \<Rightarrow> ByteStringBuffer \<Rightarrow> int \<Rightarrow> int \<Rightarrow> bool" where
  "abandoned fuel b remaining len =
     (charCodeAt (data b) (read b) \<noteq> Num 0 \<or>
      (case fromDer_rec fuel (b\<lparr>read := read b + 1\<rparr>) (remaining - 1) subOptions of
         None \<Rightarrow> False
       | Some (Inl e) \<Rightarrow> True
       | Some (Inr (nested, b')) \<Rightarrow>
           read b' - read b \<noteq> len \<or>
           (tagClass nested \<noteq> UNIVERSAL \<and> tagClass nested \<noteq> CONTEXT_SPECIFIC)))"

text \<open>
  A required sub-validator \<open>vi\<close> fails to match at the position \<open>j\<close> of the object's
  value, leaving the capture map and the error list \<open>capture'\<close> and \<open>errors'\<close>: there
  is no element at \<open>j\<close>, or \<open>validate\<close> on the element returns false.
\<close>

definition fails_at ::
  "subject \<Rightarrow> nat \<Rightarrow> validator \<Rightarrow> capture_map option \<Rightarrow> diagnostic list option \<Rightarrow>
   capture_map option \<Rightarrow> diagnostic list option \<Rightarrow> bool" where
  "fails_at obj j vi capture errors capture' errors' =
     (\<not> v_optional vi \<and>
      (case subject_child obj j of
         Inl e \<Rightarrow> False
       | Inr None \<Rightarrow> capture' = capture \<and> errors' = errors
       | Inr (Some child) \<Rightarrow> validate child vi capture errors = Inr (False, capture', errors')))"

text \<open>
  An example for the validator: a SEQUENCE of two OCTET STRINGs, and a validator that
  requires an INTEGER.
\<close>

definition example_integer :: "string \<Rightarrow> validator" where
  "example_integer name =
     Validator name (Some UNIVERSAL) (Some INTEGER) (Some False) None False None None None None"

definition example_sequence :: asn1 where
  "example_sequence =
     Asn1 UNIVERSAL 16 True True
       (Arr [Asn1 UNIVERSAL 4 False False (Str [0x41]) Absent None,
             Asn1 UNIVERSAL 4 False False (Str [0x42]) Absent None])
       Absent None"

section \<open>The integer primitives of the buffer\<close>

subsection \<open>Bytes written by \<open>putInt\<close>\<close>

lemma js_and_255: "js_and a 0xFF = take_bit 8 (toInt32 a)"
proof -
  have "(255::int) = mask 8" by (simp add: mask_eq_exp_minus_1)
  then show ?thesis
    by (simp add: js_and_def toInt32_def take_bit_eq_mask)
qed

lemma byte_at:
  assumes "m \<le> 24"
  shows "js_and (js_sar i (int m)) 0xFF = (i div 2 ^ m) mod 256"
proof -
  have m5: "nat (take_bit 5 (int m)) = m"
    using assms by (simp add: take_bit_int_eq_self)
  have "js_and (js_sar i (int m)) 0xFF = take_bit 8 (drop_bit m i)"
    unfolding js_and_255 js_sar_def toInt32_def m5
    apply (rule bit_eqI)
    using assms
    apply (auto simp add: bit_simps)
    done
  then show ?thesis
    by (simp add: take_bit_eq_mod drop_bit_eq_div)
qed

lemma byte_of_mod:
  assumes "m + 8 \<le> n"
  shows "((i mod 2 ^ n) div 2 ^ m) mod 256 = ((i::int) div 2 ^ m) mod 256"
proof -
  have "take_bit 8 (drop_bit m (take_bit n i)) = take_bit 8 (drop_bit m i)"
    apply (rule bit_eqI)
    using assms
    apply (auto simp add: bit_simps)
    done
  then show ?thesis
    by (simp add: take_bit_eq_mod drop_bit_eq_div)
qed

lemma putInt_loop_8: "putInt_loop i 8 bs = bs @ [fromCharCode (i mod 256)]"
  using byte_at [of 0 i] by (simp add: putInt_loop.simps [of i 8])

lemma putInt_loop_16:
  "putInt_loop i 16 bs = bs @ [fromCharCode ((i div 2 ^ 8) mod 256), fromCharCode (i mod 256)]"
  using byte_at [of 8 i] by (simp add: putInt_loop.simps [of i 16] putInt_loop_8)

lemma putInt_loop_24:
  "putInt_loop i 24 bs = bs @ [fromCharCode ((i div 2 ^ 16) mod 256),
     fromCharCode ((i div 2 ^ 8) mod 256), fromCharCode (i mod 256)]"
  using byte_at [of 16 i] by (simp add: putInt_loop.simps [of i 24] putInt_loop_16)

lemma putInt_loop_32:
  "putInt_loop i 32 bs = bs @ [fromCharCode ((i div 2 ^ 24) mod 256), fromCharCode ((i div 2 ^ 16) mod 256),
     fromCharCode ((i div 2 ^ 8) mod 256), fromCharCode (i mod 256)]"
  using byte_at [of 24 i] by (simp add: putInt_loop.simps [of i 32] putInt_loop_24)

lemma unsigned_be_1: "unsigned_be 1 v = [fromCharCode (v mod 256)]"
  by (simp add: unsigned_be_def)

lemma unsigned_be_2: "unsigned_be 2 v = [fromCharCode ((v div 2 ^ 8) mod 256), fromCharCode (v mod 256)]"
  by (simp add: unsigned_be_def upt_rec numeral_2_eq_2)

lemma upt_3: "[0..<3] = [0, 1, 2]" by (simp add: upt_rec)

lemma upt_4: "[0..<4] = [0, 1, 2, 3]" by (simp add: upt_rec)

lemma unsigned_be_3: "unsigned_be 3 v = [fromCharCode ((v div 2 ^ 16) mod 256), fromCharCode ((v div 2 ^ 8) mod 256), fromCharCode (v mod 256)]"
  by (simp add: unsigned_be_def upt_3)

lemma unsigned_be_4: "unsigned_be 4 v = [fromCharCode ((v div 2 ^ 24) mod 256), fromCharCode ((v div 2 ^ 16) mod 256), fromCharCode ((v div 2 ^ 8) mod 256), fromCharCode (v mod 256)]"
  by (simp add: unsigned_be_def upt_4)

lemma unsigned_be_mod_1: "unsigned_be 1 (i mod 2 ^ 8) = [fromCharCode (i mod 256)]"
  by (simp add: unsigned_be_def)

lemma unsigned_be_mod_2:
  "unsigned_be 2 (i mod 2 ^ 16) = [fromCharCode ((i div 2 ^ 8) mod 256), fromCharCode (i mod 256)]"
proof -
  have a: "(i mod 2 ^ 16) div 2 ^ 8 mod 256 = i div 2 ^ 8 mod 256"
    by (rule byte_of_mod) simp
  have b: "(i mod 2 ^ 16) mod 256 = i mod 256"
    using byte_of_mod [of 0 16 i] by simp
  show ?thesis
    by (simp only: unsigned_be_2 a b)
qed

lemma unsigned_be_mod_3:
  "unsigned_be 3 (i mod 2 ^ 24) = [fromCharCode ((i div 2 ^ 16) mod 256),
     fromCharCode ((i div 2 ^ 8) mod 256), fromCharCode (i mod 256)]"
proof -
  have a: "(i mod 2 ^ 24) div 2 ^ 16 mod 256 = i div 2 ^ 16 mod 256"
    by (rule byte_of_mod) simp
  have b: "(i mod 2 ^ 24) div 2 ^ 8 mod 256 = i div 2 ^ 8 mod 256"
    by (rule byte_of_mod) simp
  have c: "(i mod 2 ^ 24) mod 256 = i mod 256"
    using byte_of_mod [of 0 24 i] by simp
  show ?thesis
    by (simp only: unsigned_be_3 a b c)
qed

lemma unsigned_be_mod_4:
  "unsigned_be 4 (i mod 2 ^ 32) = [fromCharCode ((i div 2 ^ 24) mod 256),
     fromCharCode ((i div 2 ^ 16) mod 256), fromCharCode ((i div 2 ^ 8) mod 256),
     fromCharCode (i mod 256)]"
proof -
  have a: "(i mod 2 ^ 32) div 2 ^ 24 mod 256 = i div 2 ^ 24 mod 256"
    by (rule byte_of_mod) simp
  have b: "(i mod 2 ^ 32) div 2 ^ 16 mod 256 = i div 2 ^ 16 mod 256"
    by (rule byte_of_mod) simp
  have c: "(i mod 2 ^ 32) div 2 ^ 8 mod 256 = i div 2 ^ 8 mod 256"
    by (rule byte_of_mod) simp
  have d: "(i mod 2 ^ 32) mod 256 = i mod 256"
    using byte_of_mod [of 0 32 i] by simp
  show ?thesis
    by (simp only: unsigned_be_4 a b c d)
qed

lemma checkBitsParam_ok [simp]:
  "checkBitsParam 8 = Inr ()" "checkBitsParam 16 = Inr ()"
  "checkBitsParam 24 = Inr ()" "checkBitsParam 32 = Inr ()"
  by (simp_all add: checkBitsParam_def)

lemma putInt_be_8: "putInt b i 8 = Inr (putBytes b (unsigned_be 1 (i mod 2 ^ 8)))"
  unfolding unsigned_be_mod_1 by (simp add: putInt_def putInt_loop_8)

lemma putInt_be_16: "putInt b i 16 = Inr (putBytes b (unsigned_be 2 (i mod 2 ^ 16)))"
  unfolding unsigned_be_mod_2 by (simp add: putInt_def putInt_loop_16)

lemma putInt_be_24: "putInt b i 24 = Inr (putBytes b (unsigned_be 3 (i mod 2 ^ 24)))"
  unfolding unsigned_be_mod_3 by (simp add: putInt_def putInt_loop_24)

lemma putInt_be_32: "putInt b i 32 = Inr (putBytes b (unsigned_be 4 (i mod 2 ^ 32)))"
  unfolding unsigned_be_mod_4 by (simp add: putInt_def putInt_loop_32)

subsection \<open>Values read by \<open>getInt\<close>\<close>

lemma toInt32_id: "- (2 ^ 31) \<le> x \<Longrightarrow> x < 2 ^ 31 \<Longrightarrow> toInt32 x = x"
  unfolding toInt32_def by (rule signed_take_bit_int_eq_self) simp_all

lemma toInt32_mod: "toInt32 x = (x + 2 ^ 31) mod 2 ^ 32 - 2 ^ 31"
  unfolding toInt32_def by (simp add: signed_take_bit_eq_take_bit_shift take_bit_eq_mod)

lemma js_shl_8: "js_shl r 8 = toInt32 (r * 256)"
proof -
  have "nat (take_bit 5 (8::int)) = 8" by simp
  then have "js_shl r 8 = signed_take_bit 31 (push_bit 8 (signed_take_bit 31 r))"
    by (simp add: js_shl_def toInt32_def)
  also have "\<dots> = signed_take_bit 31 (push_bit 8 r)"
    by (rule bit_eqI) (auto simp add: bit_simps)
  finally show ?thesis by (simp add: toInt32_def push_bit_eq_mult)
qed

lemma toInt32_low_byte:
  assumes "0 \<le> c" "c < 256"
  shows "toInt32 (r * 256) + c = toInt32 (r * 256 + c)"
proof -
  have "toInt32 (r * 256) + c = signed_take_bit 31 (push_bit 8 r) + take_bit 8 c"
    using assms by (simp add: toInt32_def push_bit_eq_mult take_bit_int_eq_self)
  also have "\<dots> = signed_take_bit 31 (push_bit 8 r) OR take_bit 8 c"
    by (rule disjunctive_add) (auto simp add: bit_simps)
  also have "\<dots> = signed_take_bit 31 (push_bit 8 r OR take_bit 8 c)"
    by (rule bit_eqI) (auto simp add: bit_simps)
  also have "push_bit 8 r OR take_bit 8 c = push_bit 8 r + take_bit 8 c"
    by (rule disjunctive_add [symmetric]) (auto simp add: bit_simps)
  finally show ?thesis
    using assms by (simp add: toInt32_def push_bit_eq_mult take_bit_int_eq_self)
qed

lemma charCodeAt_range: "charCodeAt s i = Num c \<Longrightarrow> 0 \<le> c \<and> c < 65536"
  using uint_bounded [of "s ! nat i"]
  by (auto simp add: charCodeAt_def split: if_splits)

lemma js_shl_0: "js_shl 0 8 = 0"
  by (simp add: js_shl_8 toInt32_def)

lemma js_shl_8_small: "0 \<le> r \<Longrightarrow> r < 2 ^ 23 \<Longrightarrow> js_shl r 8 = r * 256"
  unfolding js_shl_8 by (rule toInt32_id) simp_all

lemma getInt_loop_codes:
  assumes "cs \<noteq> []"
    and "\<forall>j < length cs. charCodeAt (data b) (read b + int j) = Num (cs ! j)"
  shows "getInt_loop b (8 * int (length cs)) rv =
         (Num (foldl (\<lambda>a c. js_shl a 8 + c) (nan0 rv) cs), b\<lparr>read := read b + int (length cs)\<rparr>)"
  using assms
proof (induction cs arbitrary: b rv)
  case Nil
  then show ?case by simp
next
  case (Cons c cs)
  from Cons.prems(2) have c: "charCodeAt (data b) (read b) = Num c"
    by auto
  show ?case
  proof (cases "cs = []")
    case True
    with c show ?thesis
      by (simp add: getInt_loop.simps [of b 8])
  next
    case False
    let ?b = "b\<lparr>read := read b + 1\<rparr>"
    have "\<forall>j < length cs. charCodeAt (data ?b) (read ?b + int j) = Num (cs ! j)"
    proof (intro allI impI)
      fix j assume "j < length cs"
      then have "charCodeAt (data b) (read b + int (Suc j)) = Num ((c # cs) ! Suc j)"
        using Cons.prems(2) by (metis Suc_less_eq length_Cons)
      then show "charCodeAt (data ?b) (read ?b + int j) = Num (cs ! j)"
        by (simp add: ac_simps)
    qed
    from Cons.IH [OF False this]
    have ih: "getInt_loop ?b (8 * int (length cs)) (Num (js_shl (nan0 rv) 8 + c)) =
       (Num (foldl (\<lambda>a c. js_shl a 8 + c) (js_shl (nan0 rv) 8 + c) cs),
        ?b\<lparr>read := read ?b + int (length cs)\<rparr>)"
      by (simp add: nan0_def)
    have pos: "8 * int (length cs) > 0"
      using False by simp
    have "getInt_loop b (8 * int (length (c # cs))) rv =
        getInt_loop ?b (8 * int (length cs)) (Num (js_shl (nan0 rv) 8 + c))"
      using c pos by (subst getInt_loop.simps) (simp add: algebra_simps)
    with ih show ?thesis
      by (simp add: algebra_simps)
  qed
qed

lemma getInt_codes:
  assumes "n = 8 \<or> n = 16 \<or> n = 24 \<or> n = 32"
    and "peek_codes b (nat n div 8) = map Num cs"
  shows "getInt b n = Inr (Num (foldl (\<lambda>a c. js_shl a 8 + c) 0 cs), b\<lparr>read := read b + n div 8\<rparr>)"
proof -
  have len: "length cs = nat n div 8"
    using assms(2) by (metis length_map peek_codes_def length_upt diff_zero)
  have ne: "cs \<noteq> []"
    using assms(1) len by auto
  have n: "n = 8 * int (length cs)" "n div 8 = int (length cs)"
    using assms(1) len by auto
  have "\<forall>j < length cs. charCodeAt (data b) (read b + int j) = Num (cs ! j)"
  proof (intro allI impI)
    fix j assume j: "j < length cs"
    then have "peek_codes b (nat n div 8) ! j = map Num cs ! j"
      using assms(2) by simp
    then show "charCodeAt (data b) (read b + int j) = Num (cs ! j)"
      using j len by (simp add: peek_codes_def)
  qed
  from getInt_loop_codes [OF ne this, of "Num 0"] show ?thesis
    using assms(1) n by (auto simp add: getInt_def nan0_def)
qed

lemma shl_bytes_2:
  assumes "0 \<le> c0" "c0 < 256" "0 \<le> c1" "c1 < 256"
  shows "js_shl c0 8 + c1 = c0 * 256 + c1"
  using assms by (simp add: js_shl_8_small)

lemma shl_bytes_3:
  assumes "0 \<le> c0" "c0 < 256" "0 \<le> c1" "c1 < 256" "0 \<le> c2" "c2 < 256"
  shows "js_shl (js_shl c0 8 + c1) 8 + c2 = (c0 * 256 + c1) * 256 + c2"
proof -
  have "js_shl (c0 * 256 + c1) 8 = (c0 * 256 + c1) * 256"
    by (rule js_shl_8_small) (use assms in simp_all)
  then show ?thesis using assms by (simp add: shl_bytes_2)
qed

lemma shl_bytes_4:
  assumes "0 \<le> c0" "c0 < 256" "0 \<le> c1" "c1 < 256" "0 \<le> c2" "c2 < 256" "0 \<le> c3" "c3 < 256"
  shows "js_shl (js_shl (js_shl c0 8 + c1) 8 + c2) 8 + c3 =
         toInt32 (((c0 * 256 + c1) * 256 + c2) * 256 + c3)"
proof -
  have "js_shl (js_shl c0 8 + c1) 8 + c2 = (c0 * 256 + c1) * 256 + c2"
    using assms(1-6) by (rule shl_bytes_3)
  then have "js_shl (js_shl (js_shl c0 8 + c1) 8 + c2) 8 + c3 =
      toInt32 (((c0 * 256 + c1) * 256 + c2) * 256) + c3"
    by (simp only: js_shl_8)
  also have "\<dots> = toInt32 (((c0 * 256 + c1) * 256 + c2) * 256 + c3)"
    using assms(7,8) by (rule toInt32_low_byte)
  finally show ?thesis .
qed

lemma shl_consts:
  "js_shl 2 6 = 128" "js_shl 2 14 = 32768" "js_shl 2 22 = 8388608" "js_shl 2 30 = - 2147483648"
  "js_shl 128 1 = 256" "js_shl 32768 1 = 65536" "js_shl 8388608 1 = 16777216"
  "js_shl (- 2147483648) 1 = 0"
  "js_shl 2 7 = 256" "js_shl 2 15 = 65536" "js_shl 2 23 = 16777216" "js_shl 2 31 = 0"
  by (simp_all add: js_shl_def toInt32_def)

lemma toInt32_unsigned:
  assumes "0 \<le> v" "v < 2 ^ 32"
  shows "toInt32 v = (if v \<ge> 2 ^ 31 then v - 2 ^ 32 else v)"
proof (cases "v \<ge> 2 ^ 31")
  case True
  have "(v + 2 ^ 31) mod 2 ^ 32 = v - 2 ^ 31"
    by (rule int_mod_pos_eq [where q = 1]) (use True assms in simp_all)
  with True show ?thesis
    by (simp add: toInt32_mod)
next
  case False
  with assms show ?thesis
    by (simp add: toInt32_id)
qed

lemma putSignedInt_be:
  assumes "n = 8 \<or> n = 16 \<or> n = 24 \<or> n = 32"
  shows "putSignedInt b i n = Inr (putBytes b (unsigned_be (nat n div 8) (i mod 2 ^ nat n)))"
proof -
  have m: "(i + 2 ^ k) mod 2 ^ k = i mod 2 ^ k" for k :: nat
    by simp
  from assms show ?thesis
  proof (elim disjE)
    assume "n = 8"
    then show ?thesis
      using m [of 8] by (simp add: putSignedInt_def shl_consts putInt_be_8)
  next
    assume "n = 16"
    then show ?thesis
      using m [of 16] by (simp add: putSignedInt_def shl_consts putInt_be_16)
  next
    assume "n = 24"
    then show ?thesis
      using m [of 24] by (simp add: putSignedInt_def shl_consts putInt_be_24)
  next
    assume "n = 32"
    then show ?thesis
      by (simp add: putSignedInt_def shl_consts putInt_be_32)
  qed
qed

lemma be_value_simps:
  "be_value [c0] = c0"
  "be_value [c0, c1] = c0 * 256 + c1"
  "be_value [c0, c1, c2] = (c0 * 256 + c1) * 256 + c2"
  "be_value [c0, c1, c2, c3] = ((c0 * 256 + c1) * 256 + c2) * 256 + c3"
  by (simp_all add: be_value_def)

lemma list_of_length:
  "length xs = 1 \<Longrightarrow> \<exists>a. xs = [a]"
  "length xs = 2 \<Longrightarrow> \<exists>a b. xs = [a, b]"
  "length xs = 3 \<Longrightarrow> \<exists>a b c. xs = [a, b, c]"
  "length xs = 4 \<Longrightarrow> \<exists>a b c d. xs = [a, b, c, d]"
  by (auto simp add: length_Suc_conv numeral_eq_Suc)

lemma peek_codes_range:
  assumes "peek_codes b k = map Num cs" and "c \<in> set cs"
  shows "0 \<le> c"
proof -
  from assms(2) obtain j where j: "j < length cs" "cs ! j = c"
    by (auto simp add: in_set_conv_nth)
  have len: "length cs = k"
    using assms(1) by (metis length_map peek_codes_def length_upt diff_zero)
  have "peek_codes b k ! j = Num c"
    using assms(1) j by simp
  then have "charCodeAt (data b) (read b + int j) = Num c"
    using j len by (simp add: peek_codes_def)
  then show ?thesis
    using charCodeAt_range by blast
qed

lemma getSignedInt_codes:
  assumes n: "n = 8 \<or> n = 16 \<or> n = 24 \<or> n = 32"
    and peek: "peek_codes b (nat n div 8) = map Num cs"
    and bytes: "\<forall>c \<in> set cs. c < 256"
  shows "getSignedInt b n =
     Inr (Num (if be_value cs \<ge> 2 ^ (nat n - 1) then be_value cs - 2 ^ nat n else be_value cs),
          b\<lparr>read := read b + n div 8\<rparr>)"
proof -
  have len: "length cs = nat n div 8"
    using peek by (metis length_map peek_codes_def length_upt diff_zero)
  have nonneg: "\<forall>c \<in> set cs. 0 \<le> c"
    using peek peek_codes_range by blast
  note gi = getInt_codes [OF n peek]
  from n show ?thesis
  proof (elim disjE)
    assume n8: "n = 8"
    with len have "length cs = 1" by simp
    then obtain c0 where cs: "cs = [c0]"
      using list_of_length(1) [of cs] by blast
    with bytes nonneg have "0 \<le> c0" "c0 < 256" by auto
    then show ?thesis
      using gi n8 cs by (simp add: getSignedInt_def shl_consts be_value_simps js_shl_0)
  next
    assume n16: "n = 16"
    with len have "length cs = 2" by simp
    then obtain c0 c1 where cs: "cs = [c0, c1]"
      using list_of_length(2) [of cs] by blast
    with bytes nonneg have b: "0 \<le> c0" "c0 < 256" "0 \<le> c1" "c1 < 256" by auto
    have "foldl (\<lambda>a c. js_shl a 8 + c) 0 cs = be_value cs"
      using shl_bytes_2 [OF b] by (simp add: cs be_value_simps js_shl_0)
    then show ?thesis
      using gi n16 by (simp add: getSignedInt_def shl_consts)
  next
    assume n24: "n = 24"
    with len have "length cs = 3" by simp
    then obtain c0 c1 c2 where cs: "cs = [c0, c1, c2]"
      using list_of_length(3) [of cs] by blast
    with bytes nonneg have b: "0 \<le> c0" "c0 < 256" "0 \<le> c1" "c1 < 256" "0 \<le> c2" "c2 < 256"
      by auto
    have "foldl (\<lambda>a c. js_shl a 8 + c) 0 cs = be_value cs"
      using shl_bytes_3 [OF b] by (simp add: cs be_value_simps js_shl_0)
    then show ?thesis
      using gi n24 by (simp add: getSignedInt_def shl_consts)
  next
    assume n32: "n = 32"
    with len have "length cs = 4" by simp
    then obtain c0 c1 c2 c3 where cs: "cs = [c0, c1, c2, c3]"
      using list_of_length(4) [of cs] by blast
    with bytes nonneg have b: "0 \<le> c0" "c0 < 256" "0 \<le> c1" "c1 < 256" "0 \<le> c2" "c2 < 256"
      "0 \<le> c3" "c3 < 256"
      by auto
    have f: "foldl (\<lambda>a c. js_shl a 8 + c) 0 cs = toInt32 (be_value cs)"
      using shl_bytes_4 [OF b] by (simp add: cs be_value_simps js_shl_0)
    have r: "0 \<le> be_value cs" "be_value cs < 2 ^ 32"
      using b by (simp_all add: cs be_value_simps)
    have lo: "- 2147483648 \<le> toInt32 (be_value cs)"
      using signed_take_bit_int_greater_eq_minus_exp [of 31 "be_value cs"]
      by (simp add: toInt32_def)
    have t: "toInt32 (be_value cs) =
        (if be_value cs \<ge> 2 ^ 31 then be_value cs - 2 ^ 32 else be_value cs)"
      using r by (rule toInt32_unsigned)
    show ?thesis
      using gi n32 lo by (simp add: getSignedInt_def shl_consts f t)
  qed
qed

lemma uint_fromCharCode_byte: "uint (fromCharCode (x mod 256)) = x mod 256"
proof -
  have "0 \<le> x mod 256" "x mod 256 < 2 ^ 16"
    using pos_mod_bound [of 256 x] by simp_all
  then show ?thesis
    by (simp add: fromCharCode_def uint_word_of_int take_bit_eq_mod [symmetric] take_bit_int_eq_self)
qed

lemma peek_codes_unsigned_be:
  "peek_codes (createBuffer (unsigned_be k v)) k = map Num (digits k v)"
  by (simp add: peek_codes_def createBuffer_def unsigned_be_def digits_def charCodeAt_def
      uint_fromCharCode_byte)

lemma digits_lt: "\<forall>c \<in> set (digits k v). c < 256"
  by (simp add: digits_def)

lemma be_value_digits_1: "be_value (digits 1 v) = v mod 2 ^ 8"
  by (simp add: digits_def be_value_def)

lemma upt_2: "[0..<2] = [0, 1]" by (simp add: upt_rec)

lemma split2: "(v::int) mod 65536 = 256 * (v div 256 mod 256) + v mod 256"
  using zmod_zmult2_eq [of 256 v 256] by simp

lemma split3: "(v::int) mod 16777216 = 65536 * (v div 65536 mod 256) + v mod 65536"
  using zmod_zmult2_eq [of 256 v 65536] by simp

lemma split4: "(v::int) mod 4294967296 = 16777216 * (v div 16777216 mod 256) + v mod 16777216"
  using zmod_zmult2_eq [of 256 v 16777216] by simp

lemma be_value_digits_2: "be_value (digits 2 v) = v mod 2 ^ 16"
  by (simp add: digits_def be_value_def upt_2 split2)

lemma be_value_digits_3: "be_value (digits 3 v) = v mod 2 ^ 24"
  by (simp add: digits_def be_value_def upt_3 split3 split2)

lemma be_value_digits_4: "be_value (digits 4 v) = v mod 2 ^ 32"
  by (simp add: digits_def be_value_def upt_4 split4 split3 split2)

lemma wrap_signed:
  assumes "0 < w" "- (2 ^ (w - 1)) \<le> i" "i < 2 ^ (w - 1)"
  shows "(if i mod 2 ^ w \<ge> 2 ^ (w - 1) then i mod 2 ^ w - 2 ^ w else i mod 2 ^ w) = (i::int)"
proof -
  have p: "(2::int) ^ w = 2 * 2 ^ (w - 1)"
    using assms(1) by (cases w) simp_all
  show ?thesis
  proof (cases "i < 0")
    case True
    have "i mod 2 ^ w = i + 2 ^ w"
      by (rule int_mod_pos_eq [where q = "- 1"]) (use True assms p in simp_all)
    with True assms p show ?thesis by simp
  next
    case False
    with assms p have "i mod 2 ^ w = i"
      by (simp add: mod_pos_pos_trivial)
    with False assms show ?thesis by simp
  qed
qed

lemma putBytes_fresh: "putBytes (createBuffer []) s = createBuffer s"
  by (simp add: putBytes_def createBuffer_def)

subsection \<open>Writing and reading back a signed integer\<close>

text \<open>
  Claim C10. For every width \<open>n\<close> of 8, 16, 24 or 32 bits and every integer \<open>i\<close> with
  \<open>-2\<^sup>n\<^sup>-\<^sup>1 \<le> i < 2\<^sup>n\<^sup>-\<^sup>1\<close>, \<open>putSignedInt(i, n)\<close> on a fresh buffer succeeds, and
  \<open>getSignedInt(n)\<close> on the buffer it leaves returns exactly \<open>i\<close> and moves the read
  pointer past the \<open>n / 8\<close> bytes.
\<close>

theorem signed_int_roundtrip:
  assumes n: "n = 8 \<or> n = 16 \<or> n = 24 \<or> n = 32"
    and lo: "- (2 ^ (nat n - 1)) \<le> i" and hi: "i < 2 ^ (nat n - 1)"
  shows "\<exists>b. putSignedInt (createBuffer []) i n = Inr b \<and>
             getSignedInt b n = Inr (Num i, b\<lparr>read := n div 8\<rparr>)"
proof -
  let ?k = "nat n div 8"
  let ?v = "i mod 2 ^ nat n"
  let ?b = "createBuffer (unsigned_be ?k ?v)"
  have put: "putSignedInt (createBuffer []) i n = Inr ?b"
    using putSignedInt_be [OF n] by (simp add: putBytes_fresh)
  have bv: "be_value (digits ?k ?v) = ?v"
    using n be_value_digits_1 [of ?v] be_value_digits_2 [of ?v] be_value_digits_3 [of ?v]
      be_value_digits_4 [of ?v]
    by auto
  have w: "(if ?v \<ge> 2 ^ (nat n - 1) then ?v - 2 ^ nat n else ?v) = i"
    by (rule wrap_signed) (use n lo hi in auto)
  have "getSignedInt ?b n = Inr (Num (if be_value (digits ?k ?v) \<ge> 2 ^ (nat n - 1)
      then be_value (digits ?k ?v) - 2 ^ nat n else be_value (digits ?k ?v)),
      ?b\<lparr>read := read ?b + n div 8\<rparr>)"
    by (rule getSignedInt_codes [OF n peek_codes_unsigned_be digits_lt])
  then have "getSignedInt ?b n = Inr (Num i, ?b\<lparr>read := read ?b + n div 8\<rparr>)"
    unfolding bv w .
  moreover have "read ?b = 0"
    by (simp add: createBuffer_def)
  ultimately show ?thesis
    using put by simp
qed

theorem signed_int_roundtrip_witness:
  "\<exists>b. putSignedInt (createBuffer []) (- 129) 16 = Inr b \<and>
       getSignedInt b 16 = Inr (Num (- 129), b\<lparr>read := 2\<rparr>)"
  using signed_int_roundtrip [of 16 "- 129"] by simp

lemma neg_mod_bias:
  assumes "0 < w" "- (2 ^ (w - 1)) \<le> i" "i < 0"
  shows "(i::int) mod 2 ^ w = i + 2 ^ w"
proof -
  have p: "(2::int) ^ w = 2 * 2 ^ (w - 1)"
    using assms(1) by (cases w) simp_all
  show ?thesis
    by (rule int_mod_pos_eq [where q = "- 1"]) (use assms p in simp_all)
qed

subsection \<open>The bias of \<open>putSignedInt\<close>\<close>

text \<open>
  Claim C7, as the code has it. For every width \<open>n\<close> of 8, 16, 24 or 32 bits and every
  negative \<open>i\<close> representable in \<open>n\<close>-bit two's complement, \<open>putSignedInt(i, n)\<close> appends
  the \<open>n / 8\<close> big-endian bytes of the unsigned value \<open>i + 2\<^sup>n\<close>: the bias is \<open>2\<^sup>n\<close>, not
  \<open>2\<^sup>n\<^sup>-\<^sup>1\<close>. Symmetrically, when the next \<open>n / 8\<close> characters of a buffer are bytes
  with unsigned big-endian value \<open>raw\<close>, \<open>getSignedInt(n)\<close> returns \<open>raw - 2\<^sup>n\<close> if
  \<open>raw \<ge> 2\<^sup>n\<^sup>-\<^sup>1\<close> and \<open>raw\<close> otherwise.
\<close>

theorem putSignedInt_bias:
  assumes n: "n = 8 \<or> n = 16 \<or> n = 24 \<or> n = 32"
  shows "(- (2 ^ (nat n - 1)) \<le> i \<and> i < 0 \<longrightarrow>
           putSignedInt b i n = Inr (putBytes b (unsigned_be (nat n div 8) (i + 2 ^ nat n)))) \<and>
         (peek_codes b' (nat n div 8) = map Num cs \<and> (\<forall>c \<in> set cs. c < 256) \<longrightarrow>
           getSignedInt b' n =
             Inr (Num (if be_value cs \<ge> 2 ^ (nat n - 1) then be_value cs - 2 ^ nat n
                        else be_value cs),
                  b'\<lparr>read := read b' + n div 8\<rparr>))"
proof (intro conjI impI)
  assume r: "- (2 ^ (nat n - 1)) \<le> i \<and> i < 0"
  have "i mod 2 ^ nat n = i + 2 ^ nat n"
    by (rule neg_mod_bias) (use n r in auto)
  then show "putSignedInt b i n = Inr (putBytes b (unsigned_be (nat n div 8) (i + 2 ^ nat n)))"
    using putSignedInt_be [OF n, of b i] by simp
next
  assume "peek_codes b' (nat n div 8) = map Num cs \<and> (\<forall>c \<in> set cs. c < 256)"
  then show "getSignedInt b' n =
             Inr (Num (if be_value cs \<ge> 2 ^ (nat n - 1) then be_value cs - 2 ^ nat n
                        else be_value cs),
                  b'\<lparr>read := read b' + n div 8\<rparr>)"
    using getSignedInt_codes [OF n] by blast
qed

theorem putSignedInt_bias_witness:
  "putSignedInt (createBuffer []) (- 2) 8 = Inr (createBuffer [0xFE]) \<and>
   getSignedInt (createBuffer [0xFF, 0x7F]) 16 = Inr (Num (- 129), \<lparr>data = [0xFF, 0x7F], read = 2\<rparr>)"
proof -
  have p: "peek_codes (createBuffer [0xFF, 0x7F]) (nat 16 div 8) = map Num [255, 127]"
    by (simp add: peek_codes_def createBuffer_def charCodeAt_def upt_2)
  have put: "putSignedInt (createBuffer []) (- 2) 8 = Inr (createBuffer [0xFE])"
    using putSignedInt_bias [of 8 "- 2" "createBuffer []"]
    by (simp add: putBytes_fresh unsigned_be_def fromCharCode_def)
  have "getSignedInt (createBuffer [0xFF, 0x7F]) 16 =
      Inr (Num (- 129), \<lparr>data = [0xFF, 0x7F], read = 2\<rparr>)"
    using putSignedInt_bias [of 16 0 "createBuffer []" "createBuffer [0xFF, 0x7F]" "[255, 127]"] p
    by (simp add: be_value_def createBuffer_def)
  with put show ?thesis by simp
qed

text \<open>
  With the bias \<open>2\<^sup>n\<^sup>-\<^sup>1\<close> of the claim as it was stated, \<open>putSignedInt(-1, 8)\<close> would
  write the byte \<open>0x7F\<close>; it writes \<open>0xFF\<close>.
\<close>

theorem putSignedInt_bias_counterexample:
  "putSignedInt (createBuffer []) (- 1) 8 = Inr (createBuffer [0xFF]) \<and>
   putSignedInt (createBuffer []) (- 1) 8 \<noteq>
     Inr (putBytes (createBuffer []) (unsigned_be (nat 8 div 8) (- 1 + 2 ^ (nat 8 - 1))))"
  by (simp add: putSignedInt_def putInt_def putInt_loop.simps [of _ 8] js_shl_def js_sar_def
      js_and_def toInt32_def putBytes_def createBuffer_def unsigned_be_def fromCharCode_def)

subsection \<open>\<open>integerToDer\<close>\<close>

text \<open>
  Claim C6. For every \<open>x\<close> in the signed 32-bit range, \<open>integerToDer(x)\<close> returns a
  buffer holding the two's complement of \<open>x\<close> in the smallest of the widths 8, 16, 24
  and 32 bits that holds \<open>x\<close>; for every other \<open>x\<close> it fails with the integer-overflow
  error carrying \<open>x\<close>. In particular 0 gives \<open>[0x00]\<close>, -1 gives \<open>[0xFF]\<close>, 128 gives
  \<open>[0x00, 0x80]\<close> and -129 gives \<open>[0xFF, 0x7F]\<close>.
\<close>

theorem integerToDer_minimal:
  "(fits 32 x \<longrightarrow>
      (\<exists>w \<in> {8, 16, 24, 32}. fits w x \<and> (\<forall>w' \<in> {8, 16, 24, 32}. fits w' x \<longrightarrow> w \<le> w') \<and>
         integerToDer x = Inr (createBuffer (twos_complement w x)))) \<and>
   (\<not> fits 32 x \<longrightarrow> integerToDer x = Inl (IntegerTooLargeError x)) \<and>
   integerToDer 0 = Inr (createBuffer [0x00]) \<and>
   integerToDer (- 1) = Inr (createBuffer [0xFF]) \<and>
   integerToDer 128 = Inr (createBuffer [0x00, 0x80]) \<and>
   integerToDer (- 129) = Inr (createBuffer [0xFF, 0x7F])"
proof -
  have put: "putSignedInt (createBuffer []) x (int w) = Inr (createBuffer (twos_complement w x))"
    if "w = 8 \<or> w = 16 \<or> w = 24 \<or> w = 32" for w
    using that putSignedInt_be [of "int w" "createBuffer []" x]
    by (auto simp add: putBytes_fresh twos_complement_def)
  have general: "fits 32 x \<longrightarrow>
      (\<exists>w \<in> {8, 16, 24, 32}. fits w x \<and> (\<forall>w' \<in> {8, 16, 24, 32}. fits w' x \<longrightarrow> w \<le> w') \<and>
         integerToDer x = Inr (createBuffer (twos_complement w x)))"
  proof
    assume f32: "fits 32 x"
    consider "fits 8 x" | "\<not> fits 8 x" "fits 16 x" | "\<not> fits 8 x" "\<not> fits 16 x" "fits 24 x"
      | "\<not> fits 8 x" "\<not> fits 16 x" "\<not> fits 24 x"
      by blast
    then show "\<exists>w \<in> {8, 16, 24, 32}. fits w x \<and> (\<forall>w' \<in> {8, 16, 24, 32}. fits w' x \<longrightarrow> w \<le> w') \<and>
         integerToDer x = Inr (createBuffer (twos_complement w x))"
    proof cases
      case 1
      then have "integerToDer x = Inr (createBuffer (twos_complement 8 x))"
        using put [of 8] by (auto simp add: integerToDer_def fits_def Let_def)
      with 1 show ?thesis by auto
    next
      case 2
      then have "integerToDer x = Inr (createBuffer (twos_complement 16 x))"
        using put [of 16] by (auto simp add: integerToDer_def fits_def Let_def)
      with 2 show ?thesis by auto
    next
      case 3
      then have "integerToDer x = Inr (createBuffer (twos_complement 24 x))"
        using put [of 24] by (auto simp add: integerToDer_def fits_def Let_def)
      with 3 show ?thesis by auto
    next
      case 4
      then have "integerToDer x = Inr (createBuffer (twos_complement 32 x))"
        using put [of 32] f32 by (auto simp add: integerToDer_def fits_def Let_def)
      with 4 f32 show ?thesis by auto
    qed
  qed
  have overflow: "\<not> fits 32 x \<longrightarrow> integerToDer x = Inl (IntegerTooLargeError x)"
    by (auto simp add: integerToDer_def fits_def Let_def)
  have ex: "integerToDer 0 = Inr (createBuffer [0x00])"
    "integerToDer (- 1) = Inr (createBuffer [0xFF])"
    "integerToDer 128 = Inr (createBuffer [0x00, 0x80])"
    "integerToDer (- 129) = Inr (createBuffer [0xFF, 0x7F])"
    by (simp_all add: integerToDer_def putSignedInt_be putBytes_fresh unsigned_be_def
        fromCharCode_def upt_2 Let_def)
  from general overflow ex show ?thesis by blast
qed

theorem integerToDer_minimal_witness:
  "fits 32 70000 \<and> fits 24 70000 \<and> \<not> fits 16 70000 \<and>
   integerToDer 70000 = Inr (createBuffer (twos_complement 24 70000)) \<and>
   \<not> fits 32 (2 ^ 31) \<and> integerToDer (2 ^ 31) = Inl (IntegerTooLargeError (2 ^ 31))"
  using integerToDer_minimal [of 70000] integerToDer_minimal [of "2 ^ 31"]
  by (auto simp add: fits_def)

subsection \<open>\<open>putInt32\<close> and \<open>getInt32\<close>\<close>

text \<open>
  Claim C8 says that \<open>putInt32(0xDEADBEEF)\<close> on a fresh buffer followed by
  \<open>getInt32()\<close> returns 3735928559. The bytes written are \<open>DE AD BE EF\<close>, but
  \<open>getInt32\<close> combines them with \<open><<\<close> and \<open>^\<close>, whose results are signed 32-bit
  numbers: the value returned is -559038737.
\<close>

theorem putInt32_getInt32_deadbeef:
  "fst (getInt32 (putInt32 (createBuffer []) 0xDEADBEEF)) = - 559038737 \<and>
   fst (getInt32 (putInt32 (createBuffer []) 0xDEADBEEF)) \<noteq> 0xDEADBEEF \<and>
   data (putInt32 (createBuffer []) 0xDEADBEEF) = [0xDE, 0xAD, 0xBE, 0xEF]"
  by (simp add: getInt32_def putInt32_def putBytes_def createBuffer_def charCodeAt_def nan0_def
      js_xor_def js_shl_def js_and_def js_sar_def toInt32_def fromCharCode_def)

section \<open>The parser: state, fuel and termination\<close>

text \<open>
  Parsing only moves the read pointer: the string of the buffer stays as it is, an
  object takes at least two bytes and at most the bytes that remain, more fuel never
  changes a result, and a fuel of the number of remaining bytes is enough. So
  \<open>fromDer\<close> returns or throws on every buffer whose read pointer is not negative.
\<close>

lemma getByte_simps [simp]:
  "data (snd (getByte b)) = data b" "read (snd (getByte b)) = read b + 1"
  "fst (getByte b) = charCodeAt (data b) (read b)"
  by (simp_all add: getByte_def)

lemma buf_length_read [simp]: "buf_length (b\<lparr>read := r\<rparr>) = int (length (data b)) - r"
  by (simp add: buf_length_def)

lemma getInt_loop_data: "data (snd (getInt_loop b n rv)) = data b"
proof (induction b n rv rule: getInt_loop.induct)
  case (1 b n rval)
  show ?case
  proof (cases "n - 8 > 0")
    case True
    then show ?thesis
      using "1.IH" [OF refl refl refl True]
      by (subst getInt_loop.simps) (simp add: Let_def)
  next
    case False
    then show ?thesis
      by (subst getInt_loop.simps) (simp add: Let_def)
  qed
qed

lemma getInt_loop_read:
  "read (snd (getInt_loop b (8 * int (Suc k)) rv)) = read b + int (Suc k)"
proof (induction k arbitrary: b rv)
  case 0
  show ?case
    by (subst getInt_loop.simps) (simp add: Let_def)
next
  case (Suc k)
  have "8 * int (Suc (Suc k)) - 8 = 8 * int (Suc k)"
    by simp
  then show ?case
    using Suc.IH by (subst getInt_loop.simps) (simp add: Let_def del: of_nat_Suc)
qed

lemma getInt_state:
  assumes "getInt b n = Inr (x, b')"
  shows "data b' = data b" "read b' = read b + n div 8" "n = 8 \<or> n = 16 \<or> n = 24 \<or> n = 32"
proof -
  from assms have n: "n = 8 \<or> n = 16 \<or> n = 24 \<or> n = 32"
    by (auto simp add: getInt_def checkBitsParam_def split: if_splits)
  then have ok: "checkBitsParam n = Inr ()"
    by (auto simp add: checkBitsParam_def)
  with assms have b': "b' = snd (getInt_loop b n (Num 0))"
    by (simp add: getInt_def)
  show "n = 8 \<or> n = 16 \<or> n = 24 \<or> n = 32" by (rule n)
  show "data b' = data b" by (simp add: b' getInt_loop_data)
  from n obtain k where k: "n = 8 * int (Suc k)" "n div 8 = int (Suc k)"
  proof (elim disjE)
    assume "n = 8" then show ?thesis using that [of 0] by simp
  next
    assume "n = 16" then show ?thesis using that [of 1] by simp
  next
    assume "n = 24" then show ?thesis using that [of 2] by simp
  next
    assume "n = 32" then show ?thesis using that [of 3] by simp
  qed
  have "read (snd (getInt_loop b (8 * int (Suc k)) (Num 0))) = read b + int (Suc k)"
    by (rule getInt_loop_read)
  then show "read b' = read b + n div 8"
    using k by (simp only: b')
qed

lemma js_and_127: "js_and a 0x7F = take_bit 7 (toInt32 a)"
proof -
  have "(127::int) = mask 7" by (simp add: mask_eq_exp_minus_1)
  then show ?thesis
    by (simp add: js_and_def toInt32_def take_bit_eq_mask)
qed

lemma js_and_127_range: "0 \<le> js_and a 0x7F" "js_and a 0x7F < 128"
  using take_bit_int_less_exp [of 7 "toInt32 a"] by (simp_all add: js_and_127)

lemma js_shl_3: "0 \<le> x \<Longrightarrow> x < 128 \<Longrightarrow> js_shl x 3 = x * 8"
proof -
  assume x: "0 \<le> x" "x < 128"
  have "nat (take_bit 5 (3::int)) = 3" by simp
  moreover have "toInt32 x = x"
    unfolding toInt32_def by (rule signed_take_bit_int_eq_self) (use x in simp_all)
  moreover have "toInt32 (x * 8) = x * 8"
    unfolding toInt32_def by (rule signed_take_bit_int_eq_self) (use x in simp_all)
  ultimately show ?thesis
    by (simp add: js_shl_def push_bit_eq_mult)
qed

lemma getValueLength_state:
  assumes "getValueLength b r = Some (Inr (len, b'))"
  shows "data b' = data b"
    and "read b + 1 \<le> read b'"
    and "read b' = read b + 1 \<or> read b' - read b \<le> r"
    and "\<forall>l. len = Some l \<longrightarrow> 0 \<le> l"
proof -
  obtain c where c: "charCodeAt (data b) (read b) = Num c"
    using assms by (cases "charCodeAt (data b) (read b)") (auto simp add: getValueLength_def getByte_def)
  let ?b1 = "b\<lparr>read := read b + 1\<rparr>"
  let ?lfb = "js_and c 0x7F"
  have goal: "data b' = data b \<and> read b + 1 \<le> read b' \<and>
      (read b' = read b + 1 \<or> read b' - read b \<le> r) \<and> (\<forall>l. len = Some l \<longrightarrow> 0 \<le> l)"
  proof (cases "c = 0x80 \<or> js_and c 0x80 = 0")
    case True
    with assms c show ?thesis
      by (auto simp add: getValueLength_def getByte_def split: if_splits)
  next
    case False
    with assms c obtain x where
      chk: "checkBufferLength ?b1 (r - 1) ?lfb = Inr ()" and
      gi: "getInt ?b1 (js_shl ?lfb 3) = Inr (x, b')" and
      x: "x = Num (the len)" "len \<noteq> None" "0 \<le> the len"
      by (auto simp add: getValueLength_def getByte_def Let_def
          split: if_splits sum.splits num.splits prod.splits)
    note st = getInt_state [OF gi]
    have "js_shl ?lfb 3 = ?lfb * 8"
      using js_and_127_range [of c] by (intro js_shl_3) auto
    then have "read b' = read b + 1 + ?lfb"
      using st(2) by simp
    moreover have "?lfb \<le> r - 1"
      using chk by (auto simp add: checkBufferLength_def split: if_splits)
    ultimately show ?thesis
      using st(1) x js_and_127_range [of c] by auto
  qed
  from goal show "data b' = data b" "read b + 1 \<le> read b'"
    "read b' = read b + 1 \<or> read b' - read b \<le> r" "\<forall>l. len = Some l \<longrightarrow> 0 \<le> l"
    by blast+
qed

lemma read_header_state:
  assumes "read_header b r options = Some (Inr (b1, len, b2, r2))"
  shows "data b2 = data b"
    and "read b + 2 \<le> read b2"
    and "r2 = r - (read b2 - read b)"
    and "0 \<le> r2"
    and "\<forall>l. len = Some l \<longrightarrow> 0 \<le> l \<and> l \<le> r2"
proof -
  let ?b' = "b\<lparr>read := read b + 1\<rparr>"
  from assms have r: "2 \<le> r"
    by (auto simp add: read_header_def checkBufferLength_def split: if_splits)
  from assms obtain len0 where
    gv: "getValueLength ?b' (r - 1) = Some (Inr (len0, b2))" and
    r2: "r2 = r - 1 - (buf_length ?b' - buf_length b2)" and
    len: "len = (case len0 of None \<Rightarrow> None | Some l \<Rightarrow> if l > r2 then Some r2 else Some l)"
    by (auto simp add: read_header_def checkBufferLength_def getByte_def Let_def
        split: if_splits sum.splits option.splits prod.splits)
  note st = getValueLength_state [OF gv]
  have r2': "r2 = r - (read b2 - read b)"
    using r2 st(1) by (simp add: buf_length_def)
  have pos: "0 \<le> r2"
    using st(3) r r2' by auto
  show "data b2 = data b" using st(1) by simp
  show "read b + 2 \<le> read b2" using st(2) by simp
  show "r2 = r - (read b2 - read b)" by (rule r2')
  show "0 \<le> r2" by (rule pos)
  show "\<forall>l. len = Some l \<longrightarrow> 0 \<le> l \<and> l \<le> r2"
    using len st(4) pos by (auto split: option.splits if_splits)
qed

lemma buffer_eqI: "data b = data b' \<Longrightarrow> read b = read b' \<Longrightarrow> b = (b' :: ByteStringBuffer)"
  by simp

lemma getInt16_state [simp]: "snd (getInt16 b) = b\<lparr>read := read b + 2\<rparr>"
  by (simp add: getInt16_def)

lemma bmp_loop_state:
  "bmp_loop b r len val = Inr (v, b') \<Longrightarrow>
     data b' = data b \<and> read b \<le> read b' \<and> (0 \<le> r \<longrightarrow> read b' - read b \<le> r)"
proof (induction b r len val rule: bmp_loop.induct)
  case (1 b remaining len val)
  show ?case
  proof (cases "len > 0")
    case False
    with "1.prems" show ?thesis
      by (subst (asm) bmp_loop.simps) simp
  next
    case True
    with "1.prems" have chk: "checkBufferLength b remaining 2 = Inr ()"
      by (subst (asm) bmp_loop.simps) (auto split: sum.splits)
    then have r: "2 \<le> remaining"
      by (auto simp add: checkBufferLength_def split: if_splits)
    obtain c b1 where g: "getInt16 b = (c, b1)"
      by (cases "getInt16 b")
    then have b1: "b1 = b\<lparr>read := read b + 2\<rparr>"
      using getInt16_state [of b] by simp
    from "1.prems" True chk g
    have rec: "bmp_loop b1 (remaining - 2) (len - 2) (val @ [fromCharCode c]) = Inr (v, b')"
      by (subst (asm) bmp_loop.simps) simp
    from "1.IH" [OF True chk g [symmetric] refl rec]
    show ?thesis
      using r by (auto simp add: b1)
  qed
qed

lemma slice_index_simps:
  "0 \<le> i \<Longrightarrow> slice_index s i = min (nat i) (length s)"
  by (auto simp add: slice_index_def)

lemma getBytes_state:
  assumes "getBytes b (Some l) = (v, b')"
  shows "data b' = data b"
    and "0 \<le> l \<Longrightarrow> l \<le> buf_length b \<Longrightarrow> read b' = read b + l"
  using assms by (auto simp add: getBytes_def Let_def split: if_splits)

lemma read_raw_value_state:
  assumes "read_raw_value ty len b r options = Inr (v, b')"
  shows "data b' = data b"
    and "0 \<le> r \<Longrightarrow> r \<le> buf_length b \<Longrightarrow> \<forall>l. len = Some l \<longrightarrow> 0 \<le> l \<and> l \<le> r \<Longrightarrow>
         read b \<le> read b' \<and> read b' \<le> read b + r"
proof -
  from assms obtain l where l: "l = (case len of Some l \<Rightarrow> l | None \<Rightarrow> r)"
    and v: "if ty = BMPSTRING then bmp_loop b r l [] = Inr (v, b')
            else getBytes b (Some l) = (v, b')"
    by (auto simp add: read_raw_value_def split: option.splits if_splits)
  show "data b' = data b"
    using v bmp_loop_state getBytes_state(1) by (auto split: if_splits)
  assume h: "0 \<le> r" "r \<le> buf_length b" "\<forall>l. len = Some l \<longrightarrow> 0 \<le> l \<and> l \<le> r"
  then have lr: "0 \<le> l" "l \<le> r"
    using l by (auto split: option.splits)
  show "read b \<le> read b' \<and> read b' \<le> read b + r"
  proof (cases "ty = BMPSTRING")
    case True
    with v bmp_loop_state [of b r l "[]" v b'] h show ?thesis by auto
  next
    case False
    with v getBytes_state(2) [of b l v b'] lr h show ?thesis by auto
  qed
qed

lemma decode_attempt_state:
  assumes parse: "\<And>b1 r1 n b2. parse b1 r1 = Some (Inr (n, b2)) \<Longrightarrow> data b2 = data b1"
    and res: "decode_attempt parse b r len = Some (Inr (dv, b', r'))"
  shows "data b' = data b"
    and "dv = None \<Longrightarrow> b' = b \<and> r' = r"
    and "dv \<noteq> None \<Longrightarrow> read b' = read b + len \<and> r' = r - len \<and>
           (\<exists>n. dv = Some [n] \<and> parse (b\<lparr>read := read b + 1\<rparr>) (r - 1) = Some (Inr (n, b')))"
proof -
  let ?b1 = "b\<lparr>read := read b + 1\<rparr>"
  have all: "data b' = data b \<and> (dv = None \<longrightarrow> b' = b \<and> r' = r) \<and>
     (dv \<noteq> None \<longrightarrow> read b' = read b + len \<and> r' = r - len \<and>
           (\<exists>n. dv = Some [n] \<and> parse ?b1 (r - 1) = Some (Inr (n, b'))))"
  proof (cases "charCodeAt (data b) (read b) = Num 0")
    case False
    with res show ?thesis
      by (auto simp add: decode_attempt_def getByte_def Let_def split: sum.splits)
  next
    case True
    show ?thesis
    proof (cases "parse ?b1 (r - 1)")
      case None
      with res True show ?thesis
        by (auto simp add: decode_attempt_def getByte_def Let_def split: sum.splits)
    next
      case (Some x)
      show ?thesis
      proof (cases x)
        case (Inl e)
        with res True Some show ?thesis
          by (auto simp add: decode_attempt_def getByte_def Let_def split: sum.splits)
      next
        case (Inr p)
        obtain n b2 where p: "p = (n, b2)" by (cases p)
        have d: "data b2 = data b"
          using parse [of ?b1 "r - 1" n b2] Some Inr p by simp
        from res True Some Inr p d show ?thesis
          by (auto simp add: decode_attempt_def getByte_def Let_def buf_length_def
              split: sum.splits if_splits)
      qed
    qed
  qed
  from all show "data b' = data b" "dv = None \<Longrightarrow> b' = b \<and> r' = r"
    "dv \<noteq> None \<Longrightarrow> read b' = read b + len \<and> r' = r - len \<and>
           (\<exists>n. dv = Some [n] \<and> parse (b\<lparr>read := read b + 1\<rparr>) (r - 1) = Some (Inr (n, b')))"
    by blast+
qed

lemma decode_bit_string_state:
  assumes parse: "\<And>b1 r1 n b2. parse b1 r1 = Some (Inr (n, b2)) \<Longrightarrow> data b2 = data b1"
    and res: "decode_bit_string parse options tc ty len b r = Some (Inr (dv, b', r'))"
  shows "data b' = data b \<and> (dv = None \<longrightarrow> b' = b \<and> r' = r) \<and>
    (dv \<noteq> None \<longrightarrow> (\<exists>l n. len = Some l \<and> 1 < l \<and> read b' = read b + l \<and> r' = r - l \<and>
           dv = Some [n] \<and> parse (b\<lparr>read := read b + 1\<rparr>) (r - 1) = Some (Inr (n, b'))))"
proof (cases "decodeBitStrings options \<and> tc = UNIVERSAL \<and> ty = BITSTRING \<and>
         (case len of None \<Rightarrow> False | Some l \<Rightarrow> l > 1)")
  case False
  with res have "dv = None" "b' = b" "r' = r"
    by (auto simp add: decode_bit_string_def)
  then show ?thesis
    by simp
next
  case True
  then obtain l where l: "len = Some l" "1 < l"
    by (auto split: option.splits)
  from True res l have att: "decode_attempt parse b r l = Some (Inr (dv, b', r'))"
    by (simp add: decode_bit_string_def)
  note st = decode_attempt_state [OF parse att]
  show ?thesis
    using st l by auto
qed

lemma fromDer_rec_Suc_cases:
  assumes "fromDer_rec (Suc f) b r opts = Some (Inr (n, b'))"
  obtains
    (constructed) b1 len b2 r2 val where
      "read_header b r opts = Some (Inr (b1, len, b2, r2))"
      "js_and b1 0x20 = 0x20"
      "(case len of None \<Rightarrow> fromDer_indefinite f b2 r2 [] opts
                  | Some l \<Rightarrow> fromDer_definite f b2 l [] opts) = Some (Inr (val, b'))"
      "n = create (js_and b1 0xC0) (js_and b1 0x1F) True (Arr val) Absent"
  | (decoded) b1 len b2 r2 val r3 where
      "read_header b r opts = Some (Inr (b1, len, b2, r2))"
      "js_and b1 0x20 \<noteq> 0x20"
      "decode_bit_string (\<lambda>b' r'. fromDer_rec f b' r' subOptions) opts
         (js_and b1 0xC0) (js_and b1 0x1F) len b2 r2 = Some (Inr (Some val, b', r3))"
      "n = create (js_and b1 0xC0) (js_and b1 0x1F) False (Arr val)
             (if js_and b1 0xC0 = UNIVERSAL \<and> js_and b1 0x1F = BITSTRING
              then Present (bytes b2 len) else Absent)"
  | (raw) b1 len b2 r2 b3 r3 val where
      "read_header b r opts = Some (Inr (b1, len, b2, r2))"
      "js_and b1 0x20 \<noteq> 0x20"
      "decode_bit_string (\<lambda>b' r'. fromDer_rec f b' r' subOptions) opts
         (js_and b1 0xC0) (js_and b1 0x1F) len b2 r2 = Some (Inr (None, b3, r3))"
      "read_raw_value (js_and b1 0x1F) len b3 r3 opts = Inr (val, b')"
      "n = create (js_and b1 0xC0) (js_and b1 0x1F) False (Str val)
             (if js_and b1 0xC0 = UNIVERSAL \<and> js_and b1 0x1F = BITSTRING
              then Present (bytes b2 len) else Absent)"
proof -
  from assms obtain b1 len b2 r2 where
    h: "read_header b r opts = Some (Inr (b1, len, b2, r2))"
    by (auto split: option.splits sum.splits)
  show thesis
  proof (cases "js_and b1 0x20 = 0x20")
    case True
    with assms h constructed [OF h True] show thesis
      by (auto simp add: Let_def split: option.splits sum.splits)
  next
    case False
    from assms h False obtain dv b3 r3 where
      d: "decode_bit_string (\<lambda>b' r'. fromDer_rec f b' r' subOptions) opts
         (js_and b1 0xC0) (js_and b1 0x1F) len b2 r2 = Some (Inr (dv, b3, r3))"
      by (auto simp add: Let_def split: option.splits sum.splits)
    show thesis
    proof (cases dv)
      case None
      with assms h False d raw [OF h False] show thesis
        by (auto simp add: Let_def split: option.splits sum.splits)
    next
      case (Some val)
      with assms h False d decoded [OF h False] show thesis
        by (auto simp add: Let_def split: option.splits sum.splits)
    qed
  qed
qed

lemma fromDer_definite_Suc:
  "fromDer_definite (Suc f) b len val opts = Some (Inr (vs, b')) \<Longrightarrow>
     (\<not> len > 0 \<and> vs = val \<and> b' = b) \<or>
     (len > 0 \<and> (\<exists>child b1. fromDer_rec f b len opts = Some (Inr (child, b1)) \<and>
        fromDer_definite f b1 (len - (buf_length b - buf_length b1)) (val @ [child]) opts
          = Some (Inr (vs, b'))))"
  by (auto simp add: Let_def split: if_splits option.splits sum.splits)

lemma fromDer_indefinite_Suc:
  "fromDer_indefinite (Suc f) b r val opts = Some (Inr (vs, b')) \<Longrightarrow>
     2 \<le> r \<and>
     ((bytes b (Some 2) = [0, 0] \<and> vs = val \<and> b' = snd (getBytes b (Some 2))) \<or>
      (bytes b (Some 2) \<noteq> [0, 0] \<and> (\<exists>child b1. fromDer_rec f b r opts = Some (Inr (child, b1)) \<and>
        fromDer_indefinite f b1 (r - (buf_length b - buf_length b1)) (val @ [child]) opts
          = Some (Inr (vs, b')))))"
  by (auto simp add: Let_def checkBufferLength_def split: if_splits option.splits sum.splits)

lemma parse_data_all:
  "(\<forall>b r opts n b'. fromDer_rec f b r opts = Some (Inr (n, b')) \<longrightarrow> data b' = data b) \<and>
   (\<forall>b l v opts vs b'. fromDer_definite f b l v opts = Some (Inr (vs, b')) \<longrightarrow> data b' = data b) \<and>
   (\<forall>b r v opts vs b'. fromDer_indefinite f b r v opts = Some (Inr (vs, b')) \<longrightarrow> data b' = data b)"
proof (induction f)
  case 0
  show ?case by simp
next
  case (Suc f)
  then have ih_rec: "\<And>b r opts n b'. fromDer_rec f b r opts = Some (Inr (n, b')) \<Longrightarrow> data b' = data b"
    and ih_def: "\<And>b l v opts vs b'. fromDer_definite f b l v opts = Some (Inr (vs, b')) \<Longrightarrow> data b' = data b"
    and ih_ind: "\<And>b r v opts vs b'. fromDer_indefinite f b r v opts = Some (Inr (vs, b')) \<Longrightarrow> data b' = data b"
    by blast+
  have rec: "data b' = data b" if "fromDer_rec (Suc f) b r opts = Some (Inr (n, b'))"
    for b r opts n b'
    using that
  proof (cases rule: fromDer_rec_Suc_cases)
    case (constructed b1 len b2 r2 val)
    then have "data b' = data b2"
      using ih_def ih_ind by (cases len) auto
    with read_header_state(1) [OF constructed(1)] show ?thesis by simp
  next
    case (decoded b1 len b2 r2 val r3)
    have "data b' = data b2"
      using decode_bit_string_state [OF _ decoded(3)] ih_rec by blast
    with read_header_state(1) [OF decoded(1)] show ?thesis by simp
  next
    case (raw b1 len b2 r2 b3 r3 val)
    have "data b3 = data b2"
      using decode_bit_string_state [OF _ raw(3)] ih_rec by blast
    with read_header_state(1) [OF raw(1)] read_raw_value_state(1) [OF raw(4)]
    show ?thesis by simp
  qed
  have "data b' = data b" if "fromDer_definite (Suc f) b l v opts = Some (Inr (vs, b'))"
    for b l v opts vs b'
    using fromDer_definite_Suc [OF that] ih_rec ih_def by fastforce
  moreover have "data b' = data b" if "fromDer_indefinite (Suc f) b r v opts = Some (Inr (vs, b'))"
    for b r v opts vs b'
    using fromDer_indefinite_Suc [OF that] ih_rec ih_ind
    by (fastforce simp add: getBytes_def Let_def)
  ultimately show ?case
    using rec by blast
qed

lemma fromDer_rec_data: "fromDer_rec f b r opts = Some (Inr (n, b')) \<Longrightarrow> data b' = data b"
  using parse_data_all by blast

lemma decode_bit_string_rec_state:
  assumes "decode_bit_string (\<lambda>b' r'. fromDer_rec f b' r' subOptions) options tc ty len b r
           = Some (Inr (dv, b', r'))"
  shows "data b' = data b \<and> (dv = None \<longrightarrow> b' = b \<and> r' = r) \<and>
    (dv \<noteq> None \<longrightarrow> (\<exists>l n. len = Some l \<and> 1 < l \<and> read b' = read b + l \<and> r' = r - l \<and>
           dv = Some [n] \<and>
           fromDer_rec f (b\<lparr>read := read b + 1\<rparr>) (r - 1) subOptions = Some (Inr (n, b'))))"
proof -
  have "\<And>b1 r1 n b2. fromDer_rec f b1 r1 subOptions = Some (Inr (n, b2)) \<Longrightarrow> data b2 = data b1"
    by (rule fromDer_rec_data)
  from decode_bit_string_state [where parse = "\<lambda>b' r'. fromDer_rec f b' r' subOptions", OF this assms]
  show ?thesis .
qed

lemma buf_length_same_data:
  "data b' = data b \<Longrightarrow> buf_length b - buf_length b' = read b' - read b"
  by (simp add: buf_length_def)

lemma parse_consumes_all:
  "(\<forall>b r opts n b'. r \<le> buf_length b \<longrightarrow> fromDer_rec f b r opts = Some (Inr (n, b')) \<longrightarrow>
      read b + 2 \<le> read b' \<and> read b' \<le> read b + r) \<and>
   (\<forall>b l v opts vs b'. l \<le> buf_length b \<longrightarrow> fromDer_definite f b l v opts = Some (Inr (vs, b')) \<longrightarrow>
      read b' = read b + max 0 l) \<and>
   (\<forall>b r v opts vs b'. r \<le> buf_length b \<longrightarrow> fromDer_indefinite f b r v opts = Some (Inr (vs, b')) \<longrightarrow>
      read b + 2 \<le> read b' \<and> read b' \<le> read b + r)"
proof (induction f)
  case 0
  show ?case by simp
next
  case (Suc f)
  then have ih_rec: "\<And>b r opts n b'. r \<le> buf_length b \<Longrightarrow>
        fromDer_rec f b r opts = Some (Inr (n, b')) \<Longrightarrow> read b + 2 \<le> read b' \<and> read b' \<le> read b + r"
    and ih_def: "\<And>b l v opts vs b'. l \<le> buf_length b \<Longrightarrow>
        fromDer_definite f b l v opts = Some (Inr (vs, b')) \<Longrightarrow> read b' = read b + max 0 l"
    and ih_ind: "\<And>b r v opts vs b'. r \<le> buf_length b \<Longrightarrow>
        fromDer_indefinite f b r v opts = Some (Inr (vs, b')) \<Longrightarrow>
        read b + 2 \<le> read b' \<and> read b' \<le> read b + r"
    by blast+
  have rec: "read b + 2 \<le> read b' \<and> read b' \<le> read b + r"
    if le: "r \<le> buf_length b" and res: "fromDer_rec (Suc f) b r opts = Some (Inr (n, b'))"
    for b r opts n b'
    using res
  proof (cases rule: fromDer_rec_Suc_cases)
    case (constructed b1 len b2 r2 val)
    note h = read_header_state [OF constructed(1)]
    have r2: "r2 \<le> buf_length b2"
      using h(1,3) le by (simp add: buf_length_def)
    show ?thesis
    proof (cases len)
      case None
      with constructed(3) ih_ind [OF r2] have "read b2 + 2 \<le> read b' \<and> read b' \<le> read b2 + r2"
        by simp
      with h show ?thesis by simp
    next
      case (Some l)
      with h(5) r2 have l: "0 \<le> l" "l \<le> r2" "l \<le> buf_length b2" by auto
      from Some constructed(3) ih_def [OF l(3)] have "read b' = read b2 + max 0 l"
        by simp
      with h l show ?thesis by simp
    qed
  next
    case (decoded b1 len b2 r2 val r3)
    note h = read_header_state [OF decoded(1)]
    from decode_bit_string_rec_state [OF decoded(3)]
    obtain l where "len = Some l" "1 < l" "read b' = read b2 + l"
      by auto
    with h show ?thesis by auto
  next
    case (raw b1 len b2 r2 b3 r3 val)
    note h = read_header_state [OF raw(1)]
    have r2: "r2 \<le> buf_length b2"
      using h(1,3) le by (simp add: buf_length_def)
    from decode_bit_string_rec_state [OF raw(3)]
    have same: "b3 = b2" "r3 = r2" by auto
    from read_raw_value_state(2) [OF raw(4) [unfolded same] h(4) r2 h(5)] h
    show ?thesis by simp
  qed
  have def: "read b' = read b + max 0 l"
    if le: "l \<le> buf_length b" and res: "fromDer_definite (Suc f) b l v opts = Some (Inr (vs, b'))"
    for b l v opts vs b'
  proof -
    from fromDer_definite_Suc [OF res]
    show ?thesis
    proof (elim disjE conjE exE)
      assume "\<not> 0 < l" "b' = b"
      then show ?thesis by simp
    next
      fix child b1
      assume pos: "0 < l"
        and c: "fromDer_rec f b l opts = Some (Inr (child, b1))"
        and loop: "fromDer_definite f b1 (l - (buf_length b - buf_length b1)) (v @ [child]) opts
                   = Some (Inr (vs, b'))"
      note d = fromDer_rec_data [OF c]
      note u = ih_rec [OF le c]
      have len: "buf_length b - buf_length b1 = read b1 - read b"
        using d by (rule buf_length_same_data)
      have "l - (buf_length b - buf_length b1) \<le> buf_length b1"
        using le d by (simp add: buf_length_def)
      from ih_def [OF this loop] u pos show ?thesis
        by (simp add: len)
    qed
  qed
  have ind: "read b + 2 \<le> read b' \<and> read b' \<le> read b + r"
    if le: "r \<le> buf_length b" and res: "fromDer_indefinite (Suc f) b r v opts = Some (Inr (vs, b'))"
    for b r v opts vs b'
  proof -
    from fromDer_indefinite_Suc [OF res] have r: "2 \<le> r" by simp
    from fromDer_indefinite_Suc [OF res]
    show ?thesis
    proof (elim disjE conjE exE)
      assume "b' = snd (getBytes b (Some 2))"
      then show ?thesis
        using r le by (simp add: getBytes_def Let_def)
    next
      fix child b1
      assume c: "fromDer_rec f b r opts = Some (Inr (child, b1))"
        and loop: "fromDer_indefinite f b1 (r - (buf_length b - buf_length b1)) (v @ [child]) opts
                   = Some (Inr (vs, b'))"
      note d = fromDer_rec_data [OF c]
      note u = ih_rec [OF le c]
      have len: "buf_length b - buf_length b1 = read b1 - read b"
        using d by (rule buf_length_same_data)
      have "r - (buf_length b - buf_length b1) \<le> buf_length b1"
        using le d by (simp add: buf_length_def)
      from ih_ind [OF this loop] u show ?thesis
        by (simp add: len)
    qed
  qed
  from rec def ind show ?case by blast
qed

lemma decode_attempt_mono:
  assumes "\<And>b r x. parse b r = Some x \<Longrightarrow> parse' b r = Some x"
    and "decode_attempt parse b r l = Some y"
  shows "decode_attempt parse' b r l = Some y"
proof (cases "checkBufferLength b r 1")
  case (Inl e)
  with assms(2) show ?thesis by (simp add: decode_attempt_def)
next
  case (Inr u)
  show ?thesis
  proof (cases "charCodeAt (data b) (read b) = Num 0")
    case False
    with assms(2) Inr show ?thesis
      by (simp add: decode_attempt_def Let_def getByte_def)
  next
    case True
    let ?b1 = "b\<lparr>read := read b + 1\<rparr>"
    from assms(2) Inr True obtain x where x: "parse ?b1 (r - 1) = Some x"
      by (cases "parse ?b1 (r - 1)") (auto simp add: decode_attempt_def Let_def getByte_def)
    then have "parse' ?b1 (r - 1) = Some x"
      by (rule assms(1))
    with assms(2) Inr True x show ?thesis
      by (simp add: decode_attempt_def Let_def getByte_def)
  qed
qed

lemma decode_bit_string_mono:
  assumes "\<And>b r x. parse b r = Some x \<Longrightarrow> parse' b r = Some x"
    and "decode_bit_string parse options tc ty len b r = Some y"
  shows "decode_bit_string parse' options tc ty len b r = Some y"
  using assms(2) decode_attempt_mono [OF assms(1)]
  by (auto simp add: decode_bit_string_def split: if_splits)

lemma fuel_mono_all:
  "(\<forall>b r opts x. fromDer_rec f b r opts = Some x \<longrightarrow> fromDer_rec (Suc f) b r opts = Some x) \<and>
   (\<forall>b l v opts x. fromDer_definite f b l v opts = Some x \<longrightarrow>
      fromDer_definite (Suc f) b l v opts = Some x) \<and>
   (\<forall>b r v opts x. fromDer_indefinite f b r v opts = Some x \<longrightarrow>
      fromDer_indefinite (Suc f) b r v opts = Some x)"
proof (induction f)
  case 0
  show ?case by simp
next
  case (Suc f)
  then have ih_rec: "\<And>b r opts x. fromDer_rec f b r opts = Some x \<Longrightarrow>
        fromDer_rec (Suc f) b r opts = Some x"
    and ih_def: "\<And>b l v opts x. fromDer_definite f b l v opts = Some x \<Longrightarrow>
        fromDer_definite (Suc f) b l v opts = Some x"
    and ih_ind: "\<And>b r v opts x. fromDer_indefinite f b r v opts = Some x \<Longrightarrow>
        fromDer_indefinite (Suc f) b r v opts = Some x"
    by blast+
  have rec: "fromDer_rec (Suc (Suc f)) b r opts = Some x"
    if res: "fromDer_rec (Suc f) b r opts = Some x" for b r opts x
  proof (cases "read_header b r opts")
    case None
    with res show ?thesis by simp
  next
    case (Some h)
    show ?thesis
    proof (cases h)
      case (Inl e)
      with res Some show ?thesis by simp
    next
      case (Inr t)
      obtain b1 len b2 r2 where t: "t = (b1, len, b2, r2)"
        by (cases t)
      note hd = Some [unfolded Inr t]
      show ?thesis
      proof (cases "js_and b1 0x20 = 0x20")
        case True
        let ?loop = "\<lambda>f. case len of None \<Rightarrow> fromDer_indefinite f b2 r2 [] opts
                       | Some l \<Rightarrow> fromDer_definite f b2 l [] opts"
        from res hd True obtain y where y: "?loop f = Some y"
          by (cases "?loop f") (auto simp add: Let_def)
        then have "?loop (Suc f) = Some y"
          using ih_def ih_ind by (cases len) auto
        with res hd True y show ?thesis
          by (simp add: Let_def)
      next
        case False
        let ?dec = "\<lambda>f. decode_bit_string (\<lambda>b' r'. fromDer_rec f b' r' subOptions) opts
                     (js_and b1 0xC0) (js_and b1 0x1F) len b2 r2"
        from res hd False obtain y where y: "?dec f = Some y"
          by (cases "?dec f") (auto simp add: Let_def)
        have "?dec (Suc f) = Some y"
          by (rule decode_bit_string_mono [OF _ y]) (rule ih_rec)
        with res hd False y show ?thesis
          by (simp add: Let_def)
      qed
    qed
  qed
  have def: "fromDer_definite (Suc (Suc f)) b l v opts = Some x"
    if res: "fromDer_definite (Suc f) b l v opts = Some x" for b l v opts x
  proof (cases "l > 0")
    case False
    with res show ?thesis by simp
  next
    case True
    from res True obtain y where y: "fromDer_rec f b l opts = Some y"
      by (cases "fromDer_rec f b l opts") (auto simp add: Let_def)
    note y' = ih_rec [OF y]
    show ?thesis
    proof (cases y)
      case (Inl e)
      with res True y y' show ?thesis by (simp add: Let_def)
    next
      case (Inr p)
      obtain child b1 where p: "p = (child, b1)" by (cases p)
      from res True y Inr p
      have "fromDer_definite f b1 (l - (buf_length b - buf_length b1)) (v @ [child]) opts = Some x"
        by (simp add: Let_def)
      from ih_def [OF this] True y' Inr p show ?thesis
        by (simp add: Let_def)
    qed
  qed
  have ind: "fromDer_indefinite (Suc (Suc f)) b r v opts = Some x"
    if res: "fromDer_indefinite (Suc f) b r v opts = Some x" for b r v opts x
  proof (cases "checkBufferLength b r 2")
    case (Inl e)
    with res show ?thesis by simp
  next
    case chk: (Inr u)
    show ?thesis
    proof (cases "bytes b (Some 2) = [0, 0]")
      case True
      with res chk show ?thesis by simp
    next
      case False
      from res chk False obtain y where y: "fromDer_rec f b r opts = Some y"
        by (cases "fromDer_rec f b r opts") (auto simp add: Let_def)
      note y' = ih_rec [OF y]
      show ?thesis
      proof (cases y)
        case (Inl e)
        with res chk False y y' show ?thesis by (simp add: Let_def)
      next
        case (Inr p)
        obtain child b1 where p: "p = (child, b1)" by (cases p)
        from res chk False y Inr p
        have "fromDer_indefinite f b1 (r - (buf_length b - buf_length b1)) (v @ [child]) opts
              = Some x"
          by (simp add: Let_def)
        from ih_ind [OF this] chk False y' Inr p show ?thesis
          by (simp add: Let_def)
      qed
    qed
  qed
  from rec def ind show ?case by blast
qed

lemma fromDer_rec_fuel_mono:
  "fromDer_rec f b r opts = Some x \<Longrightarrow> fromDer_rec (f + k) b r opts = Some x"
  using fuel_mono_all by (induction k) auto

lemma getInt_loop_in_range:
  "0 \<le> read b \<Longrightarrow> read b + int (Suc k) \<le> int (length (data b)) \<Longrightarrow>
   fst (getInt_loop b (8 * int (Suc k)) rv) \<noteq> NaN"
proof (induction k arbitrary: b rv)
  case 0
  then show ?case
    by (subst getInt_loop.simps) (simp add: Let_def charCodeAt_def)
next
  case (Suc k)
  let ?b = "b\<lparr>read := read b + 1\<rparr>"
  have "8 * int (Suc (Suc k)) - 8 = 8 * int (Suc k)"
    by simp
  moreover have "fst (getInt_loop ?b (8 * int (Suc k)) rv') \<noteq> NaN" for rv'
    by (rule Suc.IH) (use Suc.prems in simp_all)
  ultimately show ?case
    by (subst getInt_loop.simps) (simp add: Let_def del: of_nat_Suc)
qed

lemma getInt_in_range:
  assumes "getInt b n = Inr (x, b')" "0 \<le> read b" "read b + n div 8 \<le> int (length (data b))"
  shows "x \<noteq> NaN"
proof -
  note st = getInt_state [OF assms(1)]
  from st(3) obtain k where k: "n = 8 * int (Suc k)" "n div 8 = int (Suc k)"
  proof (elim disjE)
    assume "n = 8" then show ?thesis using that [of 0] by simp
  next
    assume "n = 16" then show ?thesis using that [of 1] by simp
  next
    assume "n = 24" then show ?thesis using that [of 2] by simp
  next
    assume "n = 32" then show ?thesis using that [of 3] by simp
  qed
  have ok: "checkBitsParam n = Inr ()"
    using st(3) by (auto simp add: checkBitsParam_def)
  have "fst (getInt_loop b (8 * int (Suc k)) (Num 0)) \<noteq> NaN"
    by (rule getInt_loop_in_range) (use assms k in simp_all)
  with assms(1) ok k show ?thesis
    by (simp add: getInt_def)
qed

lemma getValueLength_in_range:
  assumes "0 \<le> read b" "1 \<le> r" "r \<le> buf_length b"
  shows "getValueLength b r \<noteq> None"
proof -
  have inr: "read b < int (length (data b))"
    using assms by (simp add: buf_length_def)
  then obtain c where c: "charCodeAt (data b) (read b) = Num c"
    using assms(1) by (simp add: charCodeAt_def)
  let ?b1 = "b\<lparr>read := read b + 1\<rparr>"
  let ?lfb = "js_and c 0x7F"
  show ?thesis
  proof (cases "c = 0x80 \<or> js_and c 0x80 = 0")
    case True
    with c show ?thesis
      by (auto simp add: getValueLength_def getByte_def)
  next
    case False
    show ?thesis
    proof (cases "checkBufferLength ?b1 (r - 1) ?lfb")
      case (Inl e)
      with c False show ?thesis
        by (auto simp add: getValueLength_def getByte_def Let_def)
    next
      case chk: (Inr u)
      then have lfb: "?lfb \<le> r - 1"
        by (auto simp add: checkBufferLength_def split: if_splits)
      show ?thesis
      proof (cases "getInt ?b1 (js_shl ?lfb 3)")
        case (Inl e)
        with c False chk show ?thesis
          by (auto simp add: getValueLength_def getByte_def Let_def)
      next
        case (Inr p)
        obtain x b2 where p: "p = (x, b2)" by (cases p)
        have sh: "js_shl ?lfb 3 = ?lfb * 8"
          using js_and_127_range [of c] by (intro js_shl_3) auto
        have "x \<noteq> NaN"
          by (rule getInt_in_range [OF Inr [unfolded p]])
            (use assms lfb sh in \<open>simp_all add: buf_length_def\<close>)
        then obtain l where "x = Num l" by (cases x) auto
        with c False chk Inr p show ?thesis
          by (auto simp add: getValueLength_def getByte_def Let_def)
      qed
    qed
  qed
qed

lemma read_header_in_range:
  assumes "0 \<le> read b" "r \<le> buf_length b"
  shows "read_header b r opts \<noteq> None"
proof (cases "checkBufferLength b r 2")
  case (Inl e)
  then show ?thesis by (simp add: read_header_def)
next
  case (Inr u)
  then have r: "2 \<le> r"
    by (auto simp add: checkBufferLength_def split: if_splits)
  let ?b1 = "b\<lparr>read := read b + 1\<rparr>"
  have "getValueLength ?b1 (r - 1) \<noteq> None"
    by (rule getValueLength_in_range) (use assms r in \<open>simp_all add: buf_length_def\<close>)
  then obtain y where y: "getValueLength ?b1 (r - 1) = Some y"
    by auto
  show ?thesis
    using Inr y
    by (auto simp add: read_header_def getByte_def Let_def split: sum.splits option.splits)
qed

lemma decode_bit_string_not_None:
  assumes "parse (b\<lparr>read := read b + 1\<rparr>) (r - 1) \<noteq> None"
  shows "decode_bit_string parse options tc ty len b r \<noteq> None"
  using assms
  by (auto simp add: decode_bit_string_def decode_attempt_def getByte_def Let_def
      split: sum.splits option.splits)

lemma enough_fuel_all:
  "(\<forall>b r opts. 0 \<le> read b \<longrightarrow> r \<le> buf_length b \<longrightarrow> r \<le> int f \<longrightarrow> 0 < f \<longrightarrow>
      fromDer_rec f b r opts \<noteq> None) \<and>
   (\<forall>b l v opts. 0 \<le> read b \<longrightarrow> l \<le> buf_length b \<longrightarrow> l < int f \<longrightarrow> 0 < f \<longrightarrow>
      fromDer_definite f b l v opts \<noteq> None) \<and>
   (\<forall>b r v opts. 0 \<le> read b \<longrightarrow> r \<le> buf_length b \<longrightarrow> r < int f \<longrightarrow> 0 < f \<longrightarrow>
      fromDer_indefinite f b r v opts \<noteq> None)"
proof (induction f)
  case 0
  show ?case by simp
next
  case (Suc f)
  then have ih_rec: "\<And>b r opts. 0 \<le> read b \<Longrightarrow> r \<le> buf_length b \<Longrightarrow> r \<le> int f \<Longrightarrow> 0 < f \<Longrightarrow>
        fromDer_rec f b r opts \<noteq> None"
    and ih_def: "\<And>b l v opts. 0 \<le> read b \<Longrightarrow> l \<le> buf_length b \<Longrightarrow> l < int f \<Longrightarrow> 0 < f \<Longrightarrow>
        fromDer_definite f b l v opts \<noteq> None"
    and ih_ind: "\<And>b r v opts. 0 \<le> read b \<Longrightarrow> r \<le> buf_length b \<Longrightarrow> r < int f \<Longrightarrow> 0 < f \<Longrightarrow>
        fromDer_indefinite f b r v opts \<noteq> None"
    by blast+
  have rec: "fromDer_rec (Suc f) b r opts \<noteq> None"
    if b: "0 \<le> read b" and le: "r \<le> buf_length b" and fuel: "r \<le> int (Suc f)"
    for b r opts
  proof -
    from read_header_in_range [OF b le] obtain h where h: "read_header b r opts = Some h"
      by auto
    show ?thesis
    proof (cases h)
      case (Inl e)
      with h show ?thesis by simp
    next
      case (Inr t)
      obtain b1 len b2 r2 where t: "t = (b1, len, b2, r2)"
        by (cases t)
      note hd = h [unfolded Inr t]
      note st = read_header_state [OF hd]
      have b2: "0 \<le> read b2" using st(2) b by simp
      have r2: "r2 \<le> buf_length b2"
        using st(1,3) le by (simp add: buf_length_def)
      have r2f: "r2 < int f"
        using st(2,3) fuel by simp
      have fpos: "0 < f"
        using r2f st(4) by simp
      show ?thesis
      proof (cases "js_and b1 0x20 = 0x20")
        case True
        have "(case len of None \<Rightarrow> fromDer_indefinite f b2 r2 [] opts
                | Some l \<Rightarrow> fromDer_definite f b2 l [] opts) \<noteq> None"
        proof (cases len)
          case None
          then show ?thesis using ih_ind [OF b2 r2 r2f fpos] by simp
        next
          case (Some l)
          with st(5) r2 r2f have "l \<le> buf_length b2" "l < int f" by auto
          with Some show ?thesis using ih_def [OF b2 _ _ fpos] by simp
        qed
        with hd True show ?thesis
          by (auto simp add: Let_def split: sum.splits)
      next
        case False
        have "fromDer_rec f (b2\<lparr>read := read b2 + 1\<rparr>) (r2 - 1) subOptions \<noteq> None"
          by (rule ih_rec) (use b2 r2 r2f st(4) in \<open>simp_all add: buf_length_def\<close>)
        then have "decode_bit_string (\<lambda>b' r'. fromDer_rec f b' r' subOptions) opts
            (js_and b1 0xC0) (js_and b1 0x1F) len b2 r2 \<noteq> None"
          by (rule decode_bit_string_not_None)
        with hd False show ?thesis
          by (auto simp add: Let_def split: sum.splits option.splits)
      qed
    qed
  qed
  have def: "fromDer_definite (Suc f) b l v opts \<noteq> None"
    if b: "0 \<le> read b" and le: "l \<le> buf_length b" and fuel: "l < int (Suc f)"
    for b l v opts
  proof (cases "l > 0")
    case False
    then show ?thesis by simp
  next
    case True
    have "fromDer_rec f b l opts \<noteq> None"
      by (rule ih_rec) (use b le fuel True in simp_all)
    then obtain y where y: "fromDer_rec f b l opts = Some y" by auto
    show ?thesis
    proof (cases y)
      case (Inl e)
      with y True show ?thesis by (simp add: Let_def)
    next
      case (Inr p)
      obtain child b1 where p: "p = (child, b1)" by (cases p)
      note c = y [unfolded Inr p]
      note d = fromDer_rec_data [OF c]
      from parse_consumes_all [of f] le c
      have u: "read b + 2 \<le> read b1" "read b1 \<le> read b + l" by blast+
      have "fromDer_definite f b1 (l - (buf_length b - buf_length b1)) (v @ [child]) opts \<noteq> None"
        by (rule ih_def) (use b le fuel u d in \<open>simp_all add: buf_length_def\<close>)
      with c True show ?thesis by (simp add: Let_def)
    qed
  qed
  have ind: "fromDer_indefinite (Suc f) b r v opts \<noteq> None"
    if b: "0 \<le> read b" and le: "r \<le> buf_length b" and fuel: "r < int (Suc f)"
    for b r v opts
  proof (cases "checkBufferLength b r 2")
    case (Inl e)
    then show ?thesis by simp
  next
    case chk: (Inr u)
    then have r: "2 \<le> r"
      by (auto simp add: checkBufferLength_def split: if_splits)
    show ?thesis
    proof (cases "bytes b (Some 2) = [0, 0]")
      case True
      with chk show ?thesis by simp
    next
      case False
      have "fromDer_rec f b r opts \<noteq> None"
        by (rule ih_rec) (use b le fuel r in simp_all)
      then obtain y where y: "fromDer_rec f b r opts = Some y" by auto
      show ?thesis
      proof (cases y)
        case (Inl e)
        with y chk False show ?thesis by (simp add: Let_def)
      next
        case (Inr p)
        obtain child b1 where p: "p = (child, b1)" by (cases p)
        note c = y [unfolded Inr p]
        note d = fromDer_rec_data [OF c]
        from parse_consumes_all [of f] le c
        have u: "read b + 2 \<le> read b1" "read b1 \<le> read b + r" by blast+
        have "fromDer_indefinite f b1 (r - (buf_length b - buf_length b1)) (v @ [child]) opts
              \<noteq> None"
          by (rule ih_ind) (use b le fuel u d in \<open>simp_all add: buf_length_def\<close>)
        with c chk False show ?thesis by (simp add: Let_def)
      qed
    qed
  qed
  from rec def ind show ?case by simp
qed

lemma fromDer_rec_enough_fuel:
  assumes "0 \<le> read b" "r \<le> buf_length b" "r \<le> int f" "0 < f"
  shows "\<exists>x. fromDer_rec f b r opts = Some x"
  using enough_fuel_all [of f] assms by auto

lemma fromDer_returns: "0 \<le> read b \<Longrightarrow> \<exists>x. fromDer b options = Some x"
proof -
  assume b: "0 \<le> read b"
  have "\<exists>x. fromDer_rec (Suc (nat (buf_length b))) b (buf_length b) (fill_options options) = Some x"
    by (rule fromDer_rec_enough_fuel) (use b in simp_all)
  then show ?thesis
    by (auto simp add: fromDer_def Let_def split: sum.splits)
qed

section \<open>The invariant of \<open>composed\<close>\<close>

lemma composed_ok_array_append [simp]:
  "composed_ok_array (xs @ ys) = (composed_ok_array xs \<and> composed_ok_array ys)"
  by (induction xs) auto

lemma isArray_copy_value [simp]: "isArray (copy_value v options) = isArray v"
  by (cases v) (simp_all add: isArray_def)

lemma copy_composed_ok:
  shows "composed_ok obj \<Longrightarrow> composed_ok (copy obj options)"
    and "composed_ok_value v \<Longrightarrow> composed_ok_value (copy_value v options)"
    and "composed_ok_array xs \<Longrightarrow> composed_ok_array (copy_array xs options)"
  by (induction obj options and v options and xs options rule: copy_copy_value_copy_array.induct)
    simp_all

lemma create_composed_ok:
  "composed_ok_value v \<Longrightarrow> composed_ok (create tc ty cons v options)"
  using copy_composed_ok(1) [of "Asn1 tc ty cons (cons \<or> isArray v) v options None" None]
  by (cases options) (simp_all add: create_def Let_def)

lemma create_composed: "composed (create tc ty cons v options) = (cons \<or> isArray v)"
  by (cases options) (simp_all add: create_def Let_def)

lemma parse_composed_ok_all:
  "(\<forall>b r opts n b'. fromDer_rec f b r opts = Some (Inr (n, b')) \<longrightarrow> composed_ok n) \<and>
   (\<forall>b l v opts vs b'. composed_ok_array v \<longrightarrow>
      fromDer_definite f b l v opts = Some (Inr (vs, b')) \<longrightarrow> composed_ok_array vs) \<and>
   (\<forall>b r v opts vs b'. composed_ok_array v \<longrightarrow>
      fromDer_indefinite f b r v opts = Some (Inr (vs, b')) \<longrightarrow> composed_ok_array vs)"
proof (induction f)
  case 0
  show ?case by simp
next
  case (Suc f)
  then have ih_rec: "\<And>b r opts n b'. fromDer_rec f b r opts = Some (Inr (n, b')) \<Longrightarrow> composed_ok n"
    and ih_def: "\<And>b l v opts vs b'. composed_ok_array v \<Longrightarrow>
        fromDer_definite f b l v opts = Some (Inr (vs, b')) \<Longrightarrow> composed_ok_array vs"
    and ih_ind: "\<And>b r v opts vs b'. composed_ok_array v \<Longrightarrow>
        fromDer_indefinite f b r v opts = Some (Inr (vs, b')) \<Longrightarrow> composed_ok_array vs"
    by blast+
  have rec: "composed_ok n" if "fromDer_rec (Suc f) b r opts = Some (Inr (n, b'))"
    for b r opts n b'
    using that
  proof (cases rule: fromDer_rec_Suc_cases)
    case (constructed b1 len b2 r2 val)
    then have "composed_ok_array val"
      using ih_def [of "[]"] ih_ind [of "[]"] by (cases len) auto
    with constructed(4) show ?thesis
      by (simp add: create_composed_ok)
  next
    case (decoded b1 len b2 r2 val r3)
    from decode_bit_string_rec_state [OF decoded(3)] obtain c b3 r4 where
      "val = [c]" "fromDer_rec f b3 r4 subOptions = Some (Inr (c, b'))"
      by auto
    then have "composed_ok_array val"
      using ih_rec by simp
    with decoded(4) show ?thesis
      by (simp add: create_composed_ok)
  next
    case (raw b1 len b2 r2 b3 r3 val)
    then show ?thesis
      by (simp add: create_composed_ok)
  qed
  have "composed_ok_array vs"
    if "composed_ok_array v" "fromDer_definite (Suc f) b l v opts = Some (Inr (vs, b'))"
    for b l v opts vs b'
    using fromDer_definite_Suc [OF that(2)] that(1) ih_rec ih_def
    by (elim disjE conjE exE) (simp, metis composed_ok_array.simps composed_ok_array_append)
  moreover have "composed_ok_array vs"
    if "composed_ok_array v" "fromDer_indefinite (Suc f) b r v opts = Some (Inr (vs, b'))"
    for b r v opts vs b'
    using fromDer_indefinite_Suc [OF that(2)] that(1) ih_rec ih_ind
    by (elim disjE conjE exE) (simp, metis composed_ok_array.simps composed_ok_array_append)
  ultimately show ?case
    using rec by blast
qed

lemma fromDer_composed_ok:
  assumes "fromDer b options = Some (Inr (obj, b'))"
  shows "composed_ok obj"
proof -
  from assms have "fromDer_rec (Suc (nat (buf_length b))) b (buf_length b) (fill_options options)
      = Some (Inr (obj, b'))"
    by (auto simp add: fromDer_def Let_def split: option.splits sum.splits if_splits)
  then show ?thesis
    using parse_composed_ok_all by blast
qed

text \<open>
  Claim C9. \<open>create\<close> sets \<open>composed\<close> to \<open>constructed || isArray(value)\<close>, and the
  object it returns satisfies the invariant throughout (snapshot included) when the
  objects of its value do; \<open>copy\<close> returns an object that satisfies the invariant when
  its argument does; every object returned by \<open>fromDer\<close> satisfies it throughout.
\<close>

theorem composed_invariant:
  "composed (create tc ty cons v bsc) = (cons \<or> isArray v) \<and>
   (composed_ok_value v \<longrightarrow> composed_ok (create tc ty cons v bsc)) \<and>
   (composed_ok obj \<longrightarrow> composed_ok (copy obj copy_options)) \<and>
   (fromDer b options = Some (Inr (parsed, b')) \<longrightarrow> composed_ok parsed)"
  using create_composed create_composed_ok copy_composed_ok(1) fromDer_composed_ok by blast

theorem composed_invariant_witness:
  "composed_ok (create UNIVERSAL BITSTRING False (Str [0, 5]) (Present [0, 5])) \<and>
   composed_ok (copy (Asn1 0 16 True True (Arr [Asn1 0 2 False False (Str [5]) Absent None]) Absent None)
                  (Some False)) \<and>
   composed_ok (Asn1 0 3 False True (Arr [Asn1 0 5 False False (Str []) Absent None])
      (Present [0, 5, 0])
      (Some (Asn1 0 3 False True (Arr [Asn1 0 5 False False (Str []) Absent None]) Absent None)))"
proof -
  have p: "fromDer (createBuffer [0x03, 0x03, 0x00, 0x05, 0x00]) NoOptions =
    Some (Inr (Asn1 0 3 False True (Arr [Asn1 0 5 False False (Str []) Absent None])
      (Present [0, 5, 0])
      (Some (Asn1 0 3 False True (Arr [Asn1 0 5 False False (Str []) Absent None]) Absent None)),
      \<lparr>data = [0x03, 0x03, 0x00, 0x05, 0x00], read = 5\<rparr>))"
    by code_simp
  have v: "composed_ok_value (Str [0, 5])" by simp
  have o: "composed_ok (Asn1 0 16 True True (Arr [Asn1 0 2 False False (Str [5]) Absent None]) Absent None)"
    by (simp add: isArray_def)
  from composed_invariant [of UNIVERSAL BITSTRING False "Str [0, 5]" "Present [0, 5]"
      "Asn1 0 16 True True (Arr [Asn1 0 2 False False (Str [5]) Absent None]) Absent None"
      "Some False" "createBuffer [0x03, 0x03, 0x00, 0x05, 0x00]" NoOptions _ _] v o p
  show ?thesis by blast
qed

section \<open>The speculative decoding of a BIT STRING\<close>

lemma decode_attempt_abandoned:
  assumes "abandoned fuel b r len" "1 \<le> r"
  shows "decode_attempt (\<lambda>b' r'. fromDer_rec fuel b' r' subOptions) b r len = Some (Inr (None, b, r))"
proof -
  let ?b1 = "b\<lparr>read := read b + 1\<rparr>"
  have chk: "checkBufferLength b r 1 = Inr ()"
    using assms(2) by (simp add: checkBufferLength_def)
  show ?thesis
  proof (cases "charCodeAt (data b) (read b) = Num 0")
    case False
    with chk show ?thesis
      by (simp add: decode_attempt_def getByte_def Let_def)
  next
    case True
    with assms(1) obtain x where x: "fromDer_rec fuel ?b1 (r - 1) subOptions = Some x"
      by (auto simp add: abandoned_def split: option.splits)
    show ?thesis
    proof (cases x)
      case (Inl e)
      with chk True x show ?thesis
        by (simp add: decode_attempt_def getByte_def Let_def)
    next
      case (Inr p)
      obtain n b2 where p: "p = (n, b2)" by (cases p)
      have d: "data b2 = data b"
        using fromDer_rec_data [OF x [unfolded Inr p]] by simp
      then have restored: "b2\<lparr>read := read b\<rparr> = b"
        by simp
      have used: "buf_length ?b1 - buf_length b2 + 1 = read b2 - read b"
        using d by (simp add: buf_length_def)
      from assms(1) True x Inr p
      have "read b2 - read b \<noteq> len \<or> (tagClass n \<noteq> UNIVERSAL \<and> tagClass n \<noteq> CONTEXT_SPECIFIC)"
        by (simp add: abandoned_def)
      with chk True x Inr p restored used show ?thesis
        by (auto simp add: decode_attempt_def getByte_def Let_def)
    qed
  qed
qed

text \<open>
  Claim C4. Take a primitive UNIVERSAL BIT STRING with a declared length of more than
  one byte, parsed with \<open>decodeBitStrings\<close> on, and let \<open>b\<close> and \<open>r\<close> be the buffer and
  the remaining count after its tag and length. Whenever the attempt to decode its
  contents is abandoned (for any of the four reasons), the attempt ends without a value
  and with exactly the buffer \<open>b\<close> and the count \<open>r\<close>, no error is thrown, and
  \<open>_fromDer\<close> returns the object with the raw bytes as its value.
\<close>

theorem bit_string_attempt_abandoned:
  assumes header: "read_header b0 r0 opts = Some (Inr (b1, Some len, b, r))"
    and bit_string: "js_and b1 0x20 \<noteq> 0x20" "js_and b1 0xC0 = UNIVERSAL" "js_and b1 0x1F = BITSTRING"
    and attempt: "decodeBitStrings opts" "1 < len"
    and abandon: "abandoned fuel b r len"
  shows "decode_bit_string (\<lambda>b' r'. fromDer_rec fuel b' r' subOptions) opts UNIVERSAL BITSTRING
           (Some len) b r = Some (Inr (None, b, r)) \<and>
         fromDer_rec (Suc fuel) b0 r0 opts =
           Some (Inr (create UNIVERSAL BITSTRING False (Str (fst (getBytes b (Some len))))
                        (Present (bytes b (Some len))),
                      snd (getBytes b (Some len))))"
proof -
  note st = read_header_state [OF header]
  have r: "1 \<le> r"
    using st(5) attempt(2) by auto
  have dec: "decode_bit_string (\<lambda>b' r'. fromDer_rec fuel b' r' subOptions) opts UNIVERSAL BITSTRING
           (Some len) b r = Some (Inr (None, b, r))"
    using decode_attempt_abandoned [OF abandon r] attempt
    by (simp add: decode_bit_string_def)
  have raw: "read_raw_value BITSTRING (Some len) b r opts = Inr (getBytes b (Some len))"
    by (simp add: read_raw_value_def BITSTRING_def BMPSTRING_def)
  have "fromDer_rec (Suc fuel) b0 r0 opts =
           Some (Inr (create UNIVERSAL BITSTRING False (Str (fst (getBytes b (Some len))))
                        (Present (bytes b (Some len))),
                      snd (getBytes b (Some len))))"
    using header bit_string dec raw
    by (simp add: Let_def split: prod.splits)
  with dec show ?thesis by simp
qed

theorem bit_string_attempt_abandoned_witness:
  "abandoned 4 \<lparr>data = [0x03, 0x03, 0x00, 0x05, 0x01], read = 2\<rparr> 3 3 \<and>
   fromDer_rec 5 (createBuffer [0x03, 0x03, 0x00, 0x05, 0x01]) 5
       \<lparr>strict = True, parseAllBytes = True, decodeBitStrings = True\<rparr> =
     Some (Inr (Asn1 0 3 False False (Str [0x00, 0x05, 0x01]) (Present [0x00, 0x05, 0x01])
                  (Some (Asn1 0 3 False False (Str [0x00, 0x05, 0x01]) Absent None)),
                \<lparr>data = [0x03, 0x03, 0x00, 0x05, 0x01], read = 5\<rparr>))"
proof -
  let ?opts = "\<lparr>strict = True, parseAllBytes = True, decodeBitStrings = True\<rparr>"
  let ?b = "\<lparr>data = [0x03, 0x03, 0x00, 0x05, 0x01], read = 2\<rparr>"
  have h: "read_header (createBuffer [0x03, 0x03, 0x00, 0x05, 0x01]) 5 ?opts =
      Some (Inr (3, Some 3, ?b, 3))"
    by code_simp
  have a: "abandoned 4 ?b 3 3"
    by code_simp
  have t: "js_and 3 0x20 \<noteq> 0x20" "js_and 3 0xC0 = UNIVERSAL" "js_and 3 0x1F = BITSTRING"
    by code_simp+
  have g: "getBytes ?b (Some 3) = ([0x00, 0x05, 0x01], \<lparr>data = [0x03, 0x03, 0x00, 0x05, 0x01], read = 5\<rparr>)"
    "bytes ?b (Some 3) = [0x00, 0x05, 0x01]"
    by code_simp+
  have c: "create UNIVERSAL BITSTRING False (Str [0x00, 0x05, 0x01]) (Present [0x00, 0x05, 0x01]) =
      Asn1 0 3 False False (Str [0x00, 0x05, 0x01]) (Present [0x00, 0x05, 0x01])
                  (Some (Asn1 0 3 False False (Str [0x00, 0x05, 0x01]) Absent None))"
    by code_simp
  from bit_string_attempt_abandoned [OF h t _ _ a] a g c show ?thesis
    by simp
qed

section \<open>Tag numbers\<close>

lemma slice_tail: "slice (a # b # v) 2 (2 + int (length v)) = v"
  by (simp add: slice_def slice_index_def)

lemma uint_fromCharCode: "0 \<le> x \<Longrightarrow> x < 65536 \<Longrightarrow> uint (fromCharCode x) = x"
  by (simp add: fromCharCode_def uint_word_of_int take_bit_eq_mod [symmetric] take_bit_int_eq_self)

lemma js_and_128_small: "0 \<le> n \<Longrightarrow> n \<le> 127 \<Longrightarrow> js_and n 0x80 = 0"
proof -
  assume n: "0 \<le> n" "n \<le> 127"
  have t: "toInt32 n = n"
    unfolding toInt32_def by (rule signed_take_bit_int_eq_self) (use n in simp_all)
  have "\<not> bit n 7"
    using n by (simp add: bit_iff_odd div_pos_pos_trivial)
  then have "n AND 2 ^ 7 = 0"
    using and_exp_eq_0_iff_not_bit [of n 7] by blast
  then show ?thesis
    using t by (simp add: js_and_def toInt32_def)
qed

lemma getValueLength_short:
  assumes "n \<le> 127"
  shows "getValueLength \<lparr>data = c # fromCharCode (int n) # v, read = 1\<rparr> r =
         Some (Inr (Some (int n), \<lparr>data = c # fromCharCode (int n) # v, read = 2\<rparr>))"
  using assms js_and_128_small [of "int n"]
  by (simp add: getValueLength_def getByte_def charCodeAt_def uint_fromCharCode)

lemma read_header_short:
  assumes "length v \<le> 127"
  shows "read_header (createBuffer (c # fromCharCode (int (length v)) # v)) (2 + int (length v)) opts =
         Some (Inr (uint c, Some (int (length v)),
                    \<lparr>data = c # fromCharCode (int (length v)) # v, read = 2\<rparr>, int (length v)))"
  using getValueLength_short [OF assms, of c v "1 + int (length v)"]
  by (simp add: read_header_def checkBufferLength_def createBuffer_def getByte_def charCodeAt_def
      nan0_def buf_length_def Let_def)

text \<open>
  Claim C3, as the code has it. The parser has no error for a tag in high-tag-number
  form: it reads every tag as one byte. For an input that starts with a primitive tag
  byte whose tag number is 31, followed by a length of at most 127 in short form and
  as many content bytes, \<open>fromDer\<close> returns a primitive object of that class with type
  31 and the content bytes as its value, whatever the options.
\<close>

theorem fromDer_tag_number_31:
  assumes "c = 0x1F \<or> c = 0x5F \<or> c = 0x9F \<or> c = 0xDF" and "length v \<le> 127"
  shows "fromDer_string (c # fromCharCode (int (length v)) # v) options =
         Some (Inr (Asn1 (js_and (uint c) 0xC0) 31 False False (Str v) Absent None,
                    \<lparr>data = c # fromCharCode (int (length v)) # v, read = 2 + int (length v)\<rparr>))"
proof -
  let ?s = "c # fromCharCode (int (length v)) # v"
  let ?b2 = "\<lparr>data = ?s, read = 2\<rparr>"
  have tag: "js_and (uint c) 0x1F = 31" "js_and (uint c) 0x20 \<noteq> 0x20"
    using assms(1) by (auto simp add: js_and_def toInt32_def)
  have cls: "js_and (uint c) 0xC0 = UNIVERSAL \<and> js_and (uint c) 0x1F = BITSTRING \<longleftrightarrow> False"
    using tag by (simp add: BITSTRING_def)
  have dec: "decode_bit_string parse opts (js_and (uint c) 0xC0) 31 (Some (int (length v))) ?b2
      (int (length v)) = Some (Inr (None, ?b2, int (length v)))" for parse opts
    by (simp add: decode_bit_string_def BITSTRING_def)
  have raw: "read_raw_value 31 (Some (int (length v))) ?b2 (int (length v)) opts =
      Inr (v, \<lparr>data = ?s, read = 2 + int (length v)\<rparr>)" for opts
    using slice_tail [of c "fromCharCode (int (length v))" v]
    by (auto simp add: read_raw_value_def BMPSTRING_def getBytes_def buf_length_def Let_def)
  have rec: "fromDer_rec (Suc f) (createBuffer ?s) (2 + int (length v)) opts =
      Some (Inr (Asn1 (js_and (uint c) 0xC0) 31 False False (Str v) Absent None,
                 \<lparr>data = ?s, read = 2 + int (length v)\<rparr>))" for f opts
    using read_header_short [OF assms(2), of c opts] tag dec raw
    by (simp add: Let_def create_def isArray_def BITSTRING_def)
  have len: "buf_length (createBuffer ?s) = 2 + int (length v)"
    by (simp add: buf_length_def createBuffer_def)
  show ?thesis
    unfolding fromDer_string_def fromDer_def len Let_def rec
    by (simp add: buf_length_def)
qed

theorem fromDer_tag_number_31_witness:
  "fromDer_string [0x5F, 0x02, 0x41, 0x42] NoOptions =
     Some (Inr (Asn1 APPLICATION 31 False False (Str [0x41, 0x42]) Absent None,
                \<lparr>data = [0x5F, 0x02, 0x41, 0x42], read = 4\<rparr>))"
proof -
  have "js_and (uint (0x5F :: 16 word)) 0xC0 = APPLICATION"
    by (simp add: js_and_def toInt32_def APPLICATION_def)
  with fromDer_tag_number_31 [of "0x5F" "[0x41, 0x42]" NoOptions] show ?thesis
    by (simp add: fromCharCode_def)
qed

text \<open>
  The claim as it was stated fails on the two bytes \<open>1F 00\<close>: the tag number is 31 and
  the parser returns an object.
\<close>

theorem fromDer_tag_number_31_counterexample:
  "fromDer_string [0x1F, 0x00] NoOptions =
     Some (Inr (Asn1 UNIVERSAL 31 False False (Str []) Absent None,
                \<lparr>data = [0x1F, 0x00], read = 2\<rparr>)) \<and>
   js_and (uint (0x1F :: 16 word)) 0x1F \<ge> 31"
  by code_simp

section \<open>The validator\<close>

lemma validate_loop_False:
  "validate_loop obj name tc ty n vs j False capture errors = Inr (False, capture, errors)"
  by (cases vs) simp_all

lemma validate_loop_failed_prefix:
  "validate_loop obj name tc ty n xs j rval capture errors = Inr (False, c', e') \<Longrightarrow>
   validate_loop obj name tc ty n (xs @ ys) j rval capture errors = Inr (False, c', e')"
proof (induction xs arbitrary: j rval capture errors)
  case Nil
  then show ?case by (simp add: validate_loop_False)
next
  case (Cons x xs)
  show ?case
  proof (cases rval)
    case False
    with Cons.prems show ?thesis by simp
  next
    case True
    show ?thesis
    proof (cases "subject_child obj j")
      case (Inl e)
      with Cons.prems True show ?thesis by simp
    next
      case (Inr oc)
      show ?thesis
      proof (cases oc)
        case None
        with Cons.prems True Inr show ?thesis
          using Cons.IH by (simp add: Let_def)
      next
        case (Some child)
        show ?thesis
        proof (cases "validate child x capture errors")
          case (Inl e)
          with Cons.prems True Inr Some show ?thesis by simp
        next
          case r: (Inr t)
          obtain r1 c1 e1 where t: "t = (r1, c1, e1)" by (cases t)
          from Cons.prems True Inr Some r t show ?thesis
            using Cons.IH by (simp add: Let_def)
        qed
      qed
    qed
  qed
qed

lemma validate_loop_required_failure:
  assumes "fails_at obj j vi capture errors capture' errors'"
  shows "validate_loop obj name tc ty n (vi # rest) j True capture errors =
         Inr (False, capture',
              push errors' (ValueLengthMismatch name tc ty n (subject_value_length obj)))"
  using assms
  by (auto simp add: fails_at_def Let_def validate_loop_False split: sum.splits option.splits)

text \<open>
  Claim C5, as the code has it. When a required sub-validator fails to match at the
  current position, the loop of \<open>validate\<close> records the failure, appends one
  value-length message of the enclosing validator after the messages of the failing
  match, and stops: the result does not depend on the sub-validators that follow, which
  are not examined and get no messages. \<open>validate\<close> then returns false. More generally,
  once the walk over a list of sub-validators has failed, the walk over any longer list
  gives the same result, captures and messages.
\<close>

theorem validate_stops_at_required_failure:
  "(fails_at obj j vi capture errors capture' errors' \<longrightarrow>
      validate_loop obj name tc ty n (vi # rest) j True capture errors =
        Inr (False, capture',
             push errors' (ValueLengthMismatch name tc ty n (subject_value_length obj)))) \<and>
   (fails_at obj 0 vi capture errors capture' errors' \<and>
    (s_tagClass obj = tc \<or> tc = None) \<and> (s_type obj = ty \<or> ty = None) \<and>
    (s_constructed obj = cons \<or> cons = None) \<longrightarrow>
      validate obj (Validator name tc ty cons (Some (vi # rest)) opt cap capA capB capV)
          capture errors =
        Inr (False, capture',
             push errors' (ValueLengthMismatch name tc ty (Suc (length rest))
                             (subject_value_length obj)))) \<and>
   (validate_loop obj name tc ty n xs j rval capture errors = Inr (False, capture', errors') \<longrightarrow>
      validate_loop obj name tc ty n (xs @ ys) j rval capture errors =
        Inr (False, capture', errors'))"
proof (intro conjI impI)
  assume "fails_at obj j vi capture errors capture' errors'"
  then show "validate_loop obj name tc ty n (vi # rest) j True capture errors =
        Inr (False, capture',
             push errors' (ValueLengthMismatch name tc ty n (subject_value_length obj)))"
    by (rule validate_loop_required_failure)
next
  assume a: "fails_at obj 0 vi capture errors capture' errors' \<and>
    (s_tagClass obj = tc \<or> tc = None) \<and> (s_type obj = ty \<or> ty = None) \<and>
    (s_constructed obj = cons \<or> cons = None)"
  then have "validate_loop obj name tc ty (Suc (length rest)) (vi # rest) 0 True capture errors =
        Inr (False, capture',
             push errors' (ValueLengthMismatch name tc ty (Suc (length rest))
                             (subject_value_length obj)))"
    using validate_loop_required_failure by blast
  with a show "validate obj (Validator name tc ty cons (Some (vi # rest)) opt cap capA capB capV)
          capture errors =
        Inr (False, capture',
             push errors' (ValueLengthMismatch name tc ty (Suc (length rest))
                             (subject_value_length obj)))"
    by (auto split: option.splits)
next
  assume "validate_loop obj name tc ty n xs j rval capture errors = Inr (False, capture', errors')"
  then show "validate_loop obj name tc ty n (xs @ ys) j rval capture errors =
        Inr (False, capture', errors')"
    by (rule validate_loop_failed_prefix)
qed

theorem validate_stops_at_required_failure_witness:
  "validate (Node example_sequence)
     (Validator ''seq'' (Some UNIVERSAL) (Some 16) (Some True)
        (Some [example_integer ''first'', example_integer ''second'']) False None None None None)
     None (Some []) =
   Inr (False, None,
        Some [TypeMismatch ''first'' (Some 2) (Some 4),
              ValueLengthMismatch ''seq'' (Some 0) (Some 16) 2 (Some 2)])"
proof -
  have f: "fails_at (Node example_sequence) 0 (example_integer ''first'') None (Some [])
      None (Some [TypeMismatch ''first'' (Some 2) (Some 4)])"
    by (simp add: fails_at_def example_integer_def example_sequence_def subject_child_def
        s_tagClass_def s_type_def s_constructed_def push_def UNIVERSAL_def INTEGER_def)
  have t: "s_tagClass (Node example_sequence) = Some UNIVERSAL"
    "s_type (Node example_sequence) = Some 16" "s_constructed (Node example_sequence) = Some True"
    by (simp_all add: example_sequence_def s_tagClass_def s_type_def s_constructed_def)
  from validate_stops_at_required_failure [of "Node example_sequence" 0 "example_integer ''first''"
      None "Some []" None "Some [TypeMismatch ''first'' (Some 2) (Some 4)]" "''seq''"
      "Some UNIVERSAL" "Some 16" 2 "[example_integer ''second'']" "Some True"
      False None None None None "[]" True "[]"] f t
  show ?thesis
    by (simp add: push_def subject_value_length_def value_length_def example_sequence_def
        UNIVERSAL_def)
qed

text \<open>
  The claim as it was stated says that the walk goes on after the failure. Here the
  second sub-validator would fail on either element with a message of its own, and no
  such message is appended.
\<close>

theorem validate_continues_counterexample:
  "validate (Node example_sequence)
     (Validator ''seq'' (Some UNIVERSAL) (Some 16) (Some True)
        (Some [example_integer ''first'', example_integer ''second'']) False None None None None)
     None (Some []) =
   Inr (False, None,
        Some [TypeMismatch ''first'' (Some 2) (Some 4),
              ValueLengthMismatch ''seq'' (Some 0) (Some 16) 2 (Some 2)]) \<and>
   validate (Node (Asn1 UNIVERSAL 4 False False (Str [0x41]) Absent None))
     (example_integer ''second'') None (Some []) =
   Inr (False, None, Some [TypeMismatch ''second'' (Some 2) (Some 4)])"
  by (simp add: example_integer_def example_sequence_def subject_child_def
      s_tagClass_def s_type_def s_constructed_def push_def UNIVERSAL_def INTEGER_def
      subject_value_length_def value_length_def)

end
